theory Spec2Isabelle
  imports Complex_Main
begin

section \<open>JavaScript numbers\<close>

text \<open>
  The program (\<^verbatim>\<open>src/app/page.tsx\<close>) computes on JavaScript numbers. A number that the code
  uses as a trial count, an index or a loop counter (\<^verbatim>\<open>n\<close>, \<^verbatim>\<open>k\<close>, \<^verbatim>\<open>i\<close>) is an \<^typ>\<open>int\<close>. Every
  other number is a value of the type \<open>number\<close> below: a real, or one of the three special
  values of IEEE 754 that the arithmetic of the program can produce from a division by zero
  or the square root of a negative number. The operations are written out for the special
  values the way ECMAScript defines them.

  Two things are idealised. Finite arithmetic is exact: no rounding, no overflow and no
  underflow. The two zeros are one value, which divides like \<^verbatim>\<open>+0\<close>. Nothing below speaks
  about the size of a rounding error.
\<close>

datatype number = Fin real | PosInf | NegInf | NaN

abbreviation num :: "int \<Rightarrow> number" where
  "num i \<equiv> Fin (of_int i)"

fun sign_of :: "number \<Rightarrow> real" where
  "sign_of (Fin a) = sgn a"
| "sign_of PosInf = 1"
| "sign_of NegInf = - 1"
| "sign_of NaN = 0"

instantiation number :: "{plus, minus, uminus, times, inverse, ord}"
begin

fun uminus_number :: "number \<Rightarrow> number" where
  "uminus_number (Fin a) = Fin (- a)"
| "uminus_number PosInf = NegInf"
| "uminus_number NegInf = PosInf"
| "uminus_number NaN = NaN"

fun plus_number :: "number \<Rightarrow> number \<Rightarrow> number" where
  "plus_number NaN _ = NaN"
| "plus_number _ NaN = NaN"
| "plus_number (Fin a) (Fin b) = Fin (a + b)"
| "plus_number PosInf NegInf = NaN"
| "plus_number NegInf PosInf = NaN"
| "plus_number PosInf _ = PosInf"
| "plus_number _ PosInf = PosInf"
| "plus_number NegInf _ = NegInf"
| "plus_number _ NegInf = NegInf"

definition minus_number :: "number \<Rightarrow> number \<Rightarrow> number" where
  "minus_number u v = u + (- v)"

fun times_number :: "number \<Rightarrow> number \<Rightarrow> number" where
  "times_number NaN _ = NaN"
| "times_number _ NaN = NaN"
| "times_number (Fin a) (Fin b) = Fin (a * b)"
| "times_number u v =
     (if sign_of u * sign_of v = 0 then NaN
      else if 0 < sign_of u * sign_of v then PosInf else NegInf)"

fun divide_number :: "number \<Rightarrow> number \<Rightarrow> number" where
  "divide_number NaN _ = NaN"
| "divide_number _ NaN = NaN"
| "divide_number (Fin a) (Fin b) =
     (if b \<noteq> 0 then Fin (a / b)
      else if a = 0 then NaN else if 0 < a then PosInf else NegInf)"
| "divide_number (Fin a) _ = Fin 0"
| "divide_number u (Fin b) = (if 0 \<le> b then u else - u)"
| "divide_number _ _ = NaN"

definition inverse_number :: "number \<Rightarrow> number" where
  "inverse_number u = divide (Fin 1) u"

text \<open>A comparison with \<open>NaN\<close> on either side is false.\<close>

fun less_number :: "number \<Rightarrow> number \<Rightarrow> bool" where
  "less_number NaN _ = False"
| "less_number _ NaN = False"
| "less_number (Fin a) (Fin b) = (a < b)"
| "less_number _ NegInf = False"
| "less_number NegInf _ = True"
| "less_number PosInf _ = False"
| "less_number _ PosInf = True"

definition less_eq_number :: "number \<Rightarrow> number \<Rightarrow> bool" where
  "less_eq_number u v = (u < v \<or> (u = v \<and> u \<noteq> NaN))"

instance ..

end

definition Math_PI :: number where
  "Math_PI = Fin pi"

fun Math_sqrt :: "number \<Rightarrow> number" where
  "Math_sqrt (Fin a) = (if a < 0 then NaN else Fin (sqrt a))"
| "Math_sqrt PosInf = PosInf"
| "Math_sqrt NegInf = NaN"
| "Math_sqrt NaN = NaN"

fun Math_exp :: "number \<Rightarrow> number" where
  "Math_exp (Fin a) = Fin (exp a)"
| "Math_exp PosInf = PosInf"
| "Math_exp NegInf = Fin 0"
| "Math_exp NaN = NaN"

fun Math_abs :: "number \<Rightarrow> number" where
  "Math_abs (Fin a) = Fin \<bar>a\<bar>"
| "Math_abs PosInf = PosInf"
| "Math_abs NegInf = PosInf"
| "Math_abs NaN = NaN"

text \<open>
  \<^verbatim>\<open>Math.pow\<close> is only ever called with an integer exponent: \<^verbatim>\<open>k\<close>, \<^verbatim>\<open>n - k\<close> or \<^verbatim>\<open>2\<close>.
\<close>

definition Math_pow :: "number \<Rightarrow> int \<Rightarrow> number" where
  "Math_pow u e =
     (if e = 0 then Fin 1
      else case u of
        NaN \<Rightarrow> NaN
      | Fin a \<Rightarrow>
          (if 0 < e then Fin (a ^ nat e)
           else if a = 0 then PosInf else Fin (1 / a ^ nat (- e)))
      | PosInf \<Rightarrow> (if 0 < e then PosInf else Fin 0)
      | NegInf \<Rightarrow> (if 0 < e then (if odd e then NegInf else PosInf) else Fin 0))"

section \<open>Binomial coefficient and probability mass\<close>

text \<open>
  \<^verbatim>\<open>for (let i = 0; i < k; i++) { result = (result * (n - i)) / (i + 1); }\<close>
\<close>

function binomialCoefficient_loop :: "int \<Rightarrow> int \<Rightarrow> int \<Rightarrow> number \<Rightarrow> number" where
  "binomialCoefficient_loop n k i result =
     (if i < k
      then binomialCoefficient_loop n k (i + 1) ((result * num (n - i)) / num (i + 1))
      else result)"
  by pat_completeness auto
termination
  by (relation "measure (\<lambda>(n, k, i, result). nat (k - i))") auto

declare binomialCoefficient_loop.simps [simp del]

definition binomialCoefficient :: "int \<Rightarrow> int \<Rightarrow> number" where
  "binomialCoefficient n k =
     (if k < 0 \<or> k > n then Fin 0
      else if k = 0 \<or> k = n then Fin 1
      else binomialCoefficient_loop n (min k (n - k)) 0 (Fin 1))"

definition binomialPMF :: "int \<Rightarrow> int \<Rightarrow> number \<Rightarrow> number" where
  "binomialPMF n k p =
     (if k < 0 \<or> k > n then Fin 0
      else binomialCoefficient n k * Math_pow p k * Math_pow (Fin 1 - p) (n - k))"

section \<open>Normal density, error function, cumulative probability\<close>

definition normalPDF :: "number \<Rightarrow> number \<Rightarrow> number \<Rightarrow> number" where
  "normalPDF x mean stdDev =
     (let coefficient = Fin 1 / (stdDev * Math_sqrt (Fin 2 * Math_PI));
          exponent = Fin (- 0.5) * Math_pow ((x - mean) / stdDev) 2
      in coefficient * Math_exp exponent)"

definition erf :: "number \<Rightarrow> number" where
  "erf x0 =
     (let a1 = Fin 0.254829592;
          a2 = Fin (- 0.284496736);
          a3 = Fin 1.421413741;
          a4 = Fin (- 1.453152027);
          a5 = Fin 1.061405429;
          p = Fin 0.3275911;
          sign = (if x0 < Fin 0 then Fin (- 1) else Fin 1);
          x = Math_abs x0;
          t = Fin 1 / (Fin 1 + p * x);
          y = Fin 1 - ((((a5 * t + a4) * t + a3) * t + a2) * t + a1) * t * Math_exp (- x * x)
      in sign * y)"

definition normalCDF :: "number \<Rightarrow> number \<Rightarrow> number \<Rightarrow> number" where
  "normalCDF x mean stdDev =
     Fin 0.5 * (Fin 1 + erf ((x - mean) / (stdDev * Math_sqrt (Fin 2))))"

definition normalIntegral :: "number \<Rightarrow> number \<Rightarrow> number \<Rightarrow> number \<Rightarrow> number" where
  "normalIntegral a b mean stdDev = normalCDF b mean stdDev - normalCDF a mean stdDev"

section \<open>Discrete sum over a range\<close>

text \<open>
  The bounds \<^verbatim>\<open>a\<close> and \<^verbatim>\<open>b\<close> are finite reals; \<^verbatim>\<open>Math.floor\<close> makes integers of them.
  \<^verbatim>\<open>for (let k = startK; k <= endK; k++) { sum += binomialPMF(n, k, p); }\<close>
\<close>

function binomialSum_loop :: "int \<Rightarrow> number \<Rightarrow> int \<Rightarrow> int \<Rightarrow> number \<Rightarrow> number" where
  "binomialSum_loop n p endK k sum_acc =
     (if k \<le> endK
      then binomialSum_loop n p endK (k + 1) (sum_acc + binomialPMF n k p)
      else sum_acc)"
  by pat_completeness auto
termination
  by (relation "measure (\<lambda>(n, p, endK, k, sum_acc). nat (endK + 1 - k))") auto

declare binomialSum_loop.simps [simp del]

definition binomialSum :: "int \<Rightarrow> number \<Rightarrow> real \<Rightarrow> real \<Rightarrow> number" where
  "binomialSum n p a b =
     (let startK = max 0 \<lfloor>a\<rfloor>;
          endK = min n \<lfloor>b\<rfloor>
      in binomialSum_loop n p endK startK (Fin 0))"

section \<open>How a call completes\<close>

text \<open>
  The specification names two errors. The source has no \<^verbatim>\<open>throw\<close> statement, and arithmetic,
  comparison and the \<^verbatim>\<open>Math\<close> functions never throw on numbers, so a call of one of these
  functions always completes by returning its value.
\<close>

datatype error = DomainError | InvalidRangeError

definition normalPDF_call :: "number \<Rightarrow> number \<Rightarrow> number \<Rightarrow> error + number" where
  "normalPDF_call x mean stdDev = Inr (normalPDF x mean stdDev)"

definition normalCDF_call :: "number \<Rightarrow> number \<Rightarrow> number \<Rightarrow> error + number" where
  "normalCDF_call x mean stdDev = Inr (normalCDF x mean stdDev)"

definition normalIntegral_call ::
  "number \<Rightarrow> number \<Rightarrow> number \<Rightarrow> number \<Rightarrow> error + number" where
  "normalIntegral_call a b mean stdDev = Inr (normalIntegral a b mean stdDev)"

definition binomialSum_call :: "int \<Rightarrow> number \<Rightarrow> real \<Rightarrow> real \<Rightarrow> error + number" where
  "binomialSum_call n p a b = Inr (binomialSum n p a b)"

section \<open>The series of points\<close>

text \<open>
  A point of the series. The source adds a \<^verbatim>\<open>label\<close>, a string for the chart's tooltip that
  is formatted from \<^verbatim>\<open>k\<close>; it takes no part in any computation and is left out. The
  fields \<^verbatim>\<open>x\<close>, \<^verbatim>\<open>y\<close> and \<^verbatim>\<open>normalY\<close> carry the prefix \<open>point_\<close>.
\<close>

record point =
  point_x :: number
  point_y :: number
  point_normalY :: number

definition mean_of :: "int \<Rightarrow> number \<Rightarrow> number" where
  "mean_of n p = num n * p"

definition stdDev_of :: "int \<Rightarrow> number \<Rightarrow> number" where
  "stdDev_of n p = Math_sqrt (num n * p * (Fin 1 - p))"

definition meanForPDF :: "int \<Rightarrow> number \<Rightarrow> bool \<Rightarrow> number" where
  "meanForPDF n p useProportions = (if useProportions then p else mean_of n p)"

definition stdDevForPDF :: "int \<Rightarrow> number \<Rightarrow> bool \<Rightarrow> number" where
  "stdDevForPDF n p useProportions =
     (if useProportions then Math_sqrt ((p * (Fin 1 - p)) / num n) else stdDev_of n p)"

text \<open>\<^verbatim>\<open>useProportions ? k / n : k\<close>\<close>

definition x_of :: "int \<Rightarrow> bool \<Rightarrow> int \<Rightarrow> number" where
  "x_of n useProportions k = (if useProportions then num k / num n else num k)"

text \<open>
  First pass: \<^verbatim>\<open>binomialProbs.push(prob); if (prob > maxBinomial) maxBinomial = prob;\<close>
  for \<^verbatim>\<open>k\<close> from 0 to \<^verbatim>\<open>n\<close>. The state is the array and the running maximum.
\<close>

function firstPass :: "int \<Rightarrow> number \<Rightarrow> int \<Rightarrow> number list \<times> number \<Rightarrow> number list \<times> number" where
  "firstPass n p k (binomialProbs, maxBinomial) =
     (if k \<le> n
      then (let prob = binomialPMF n k p
            in firstPass n p (k + 1)
                 (binomialProbs @ [prob], if prob > maxBinomial then prob else maxBinomial))
      else (binomialProbs, maxBinomial))"
  by pat_completeness auto
termination
  by (relation "measure (\<lambda>(n, p, k, s). nat (n + 1 - k))") auto

declare firstPass.simps [simp del]

text \<open>The loop that finds the largest density: \<^verbatim>\<open>if (pdfVal > maxNormal) maxNormal = pdfVal;\<close>\<close>

function maxNormalPass :: "int \<Rightarrow> bool \<Rightarrow> number \<Rightarrow> number \<Rightarrow> int \<Rightarrow> number \<Rightarrow> number" where
  "maxNormalPass n useProportions mean stdDev k maxNormal =
     (if k \<le> n
      then (let pdfVal = normalPDF (x_of n useProportions k) mean stdDev
            in maxNormalPass n useProportions mean stdDev (k + 1)
                 (if pdfVal > maxNormal then pdfVal else maxNormal))
      else maxNormal)"
  by pat_completeness auto
termination
  by (relation "measure (\<lambda>(n, u, m, s, k, mx). nat (n + 1 - k))") auto

declare maxNormalPass.simps [simp del]

definition scaleFactor :: "number \<Rightarrow> number \<Rightarrow> number" where
  "scaleFactor maxBinomial maxNormal =
     (if maxNormal > Fin 0 \<and> maxBinomial > Fin 0 then maxBinomial / maxNormal else Fin 1)"

text \<open>
  Second pass: one point per \<^verbatim>\<open>k\<close>. The read \<^verbatim>\<open>binomialProbs[k]\<close> is in range in every
  iteration, since the first pass has pushed \<^verbatim>\<open>n + 1\<close> values (lemma \<open>length_binomialProbs\<close>).
\<close>

function secondPass ::
  "int \<Rightarrow> bool \<Rightarrow> number \<Rightarrow> number \<Rightarrow> number \<Rightarrow> number list \<Rightarrow> int \<Rightarrow> point list \<Rightarrow> point list" where
  "secondPass n useProportions mean stdDev scale binomialProbs k data =
     (if k \<le> n
      then (let binomialProb = binomialProbs ! nat k;
                normalProb = normalPDF (x_of n useProportions k) mean stdDev * scale
            in secondPass n useProportions mean stdDev scale binomialProbs (k + 1)
                 (data @ [\<lparr>point_x = x_of n useProportions k, point_y = binomialProb,
                           point_normalY = normalProb\<rparr>]))
      else data)"
  by pat_completeness auto
termination
  by (relation "measure (\<lambda>(n, u, m, s, c, bs, k, d). nat (n + 1 - k))") auto

declare secondPass.simps [simp del]

definition binomialProbs_of :: "int \<Rightarrow> number \<Rightarrow> number list" where
  "binomialProbs_of n p = fst (firstPass n p 0 ([], Fin 0))"

definition maxBinomial_of :: "int \<Rightarrow> number \<Rightarrow> number" where
  "maxBinomial_of n p = snd (firstPass n p 0 ([], Fin 0))"

definition maxNormal_of :: "int \<Rightarrow> number \<Rightarrow> bool \<Rightarrow> number" where
  "maxNormal_of n p useProportions =
     maxNormalPass n useProportions (meanForPDF n p useProportions)
       (stdDevForPDF n p useProportions) 0 (Fin 0)"

definition generateBinomialData :: "int \<Rightarrow> number \<Rightarrow> bool \<Rightarrow> point list" where
  "generateBinomialData n p useProportions =
     secondPass n useProportions (meanForPDF n p useProportions)
       (stdDevForPDF n p useProportions)
       (scaleFactor (maxBinomial_of n p) (maxNormal_of n p useProportions))
       (binomialProbs_of n p) 0 []"

text \<open>The largest value of a list, in the order of the numbers.\<close>

definition is_maximum :: "number \<Rightarrow> number list \<Rightarrow> bool" where
  "is_maximum m vs = (m \<in> set vs \<and> (\<forall>v \<in> set vs. v \<le> m))"

text \<open>Two numbers are within a tolerance: both are finite and their distance is at most it.\<close>

fun close_to :: "real \<Rightarrow> number \<Rightarrow> number \<Rightarrow> bool" where
  "close_to tol (Fin a) (Fin b) = (\<bar>a - b\<bar> \<le> tol)"
| "close_to tol _ _ = False"

section \<open>Values in exact arithmetic\<close>

text \<open>
  The quantities the program approximates, as functions on the reals: the binomial
  probability mass, the normal density, and the value \<^verbatim>\<open>y\<close> of the error-function
  approximation at a non-negative argument.
\<close>

definition binomial_mass :: "int \<Rightarrow> int \<Rightarrow> real \<Rightarrow> real" where
  "binomial_mass n k p =
     (if k < 0 \<or> k > n then 0
      else real (nat n choose nat k) * p ^ nat k * (1 - p) ^ nat (n - k))"

definition normal_density :: "real \<Rightarrow> real \<Rightarrow> real \<Rightarrow> real" where
  "normal_density x m s = (1 / (s * sqrt (2 * pi))) * exp (- 0.5 * ((x - m) / s)\<^sup>2)"

definition erf_y :: "real \<Rightarrow> real" where
  "erf_y a =
     (let t = 1 / (1 + 0.3275911 * a)
      in 1 - (((((1.061405429 * t + (- 1.453152027)) * t + 1.421413741) * t
                + (- 0.284496736)) * t + 0.254829592) * t * exp (- a * a)))"

section \<open>Double precision\<close>

text \<open>
  The definitions above compute finite values exactly. The ones of this section round: every
  arithmetic operation of the source returns the double nearest to the exact result, ties
  to the even significand, with gradual underflow and with overflow to an infinity, as
  IEEE 754 binary64 does in the default rounding mode. \<open>round_double x\<close> is that double for a
  real \<open>x\<close>; \<open>rd\<close> rounds a finite number and leaves the special values.
  The quantum of \<open>x\<close> is the distance of neighbouring doubles around \<open>x\<close>: \<open>2\<close> to the power
  \<open>e - 52\<close> where \<open>e\<close> is the binary exponent of \<open>x\<close>, not below \<open>-1022\<close>.
\<close>

definition round_half_even :: "real \<Rightarrow> int" where
  "round_half_even y =
     (let f = \<lfloor>y\<rfloor>; d = y - of_int f
      in if d < 1 / 2 then f else if 1 / 2 < d then f + 1 else if even f then f else f + 1)"

definition binade :: "real \<Rightarrow> int" where
  "binade x = max \<lfloor>log 2 x\<rfloor> (- 1022)"

definition quantum :: "real \<Rightarrow> real" where
  "quantum x = 2 powi (binade x - 52)"

definition round_magnitude :: "real \<Rightarrow> real" where
  "round_magnitude x = of_int (round_half_even (x / quantum x)) * quantum x"

definition overflow_threshold :: real where
  "overflow_threshold = 2 ^ 1024"

definition round_double :: "real \<Rightarrow> number" where
  "round_double x =
     (if x = 0 then Fin 0
      else let r = round_magnitude \<bar>x\<bar>
           in if overflow_threshold \<le> r then (if 0 < x then PosInf else NegInf)
              else Fin (sgn x * r))"

fun rd :: "number \<Rightarrow> number" where
  "rd (Fin a) = round_double a"
| "rd PosInf = PosInf"
| "rd NegInf = NegInf"
| "rd NaN = NaN"

text \<open>
  A trial count or loop counter as a double, and the coefficient loop with both operations
  of \<^verbatim>\<open>result = (result * (n - i)) / (i + 1)\<close> rounded.
\<close>

definition dnum :: "int \<Rightarrow> number" where
  "dnum i = rd (num i)"

function binomialCoefficient_loop_d :: "int \<Rightarrow> int \<Rightarrow> int \<Rightarrow> number \<Rightarrow> number" where
  "binomialCoefficient_loop_d n k i result =
     (if i < k
      then binomialCoefficient_loop_d n k (i + 1)
             (rd (rd (result * dnum (n - i)) / dnum (i + 1)))
      else result)"
  by pat_completeness auto
termination
  by (relation "measure (\<lambda>(n, k, i, result). nat (k - i))") auto

declare binomialCoefficient_loop_d.simps [simp del]

definition binomialCoefficient_d :: "int \<Rightarrow> int \<Rightarrow> number" where
  "binomialCoefficient_d n k =
     (if k < 0 \<or> k > n then Fin 0
      else if k = 0 \<or> k = n then Fin 1
      else binomialCoefficient_loop_d n (min k (n - k)) 0 (Fin 1))"

text \<open>
  The recurrence in the words of the specification, \<^verbatim>\<open>result *= (n-i)/(i+1)\<close>: the quotient
  is rounded, then the product.
\<close>

definition spec_multiplicative_recurrence_d :: "int \<Rightarrow> int \<Rightarrow> number" where
  "spec_multiplicative_recurrence_d n k' =
     foldl (\<lambda>result i. rd (result * rd (dnum (n - i) / dnum (i + 1)))) (Fin 1) [0..k' - 1]"


text \<open>
  \<^verbatim>\<open>Math.pow\<close> as the double nearest to the exact power, and the probability mass and the sum
  over a range with every product and every sum rounded.
\<close>

definition Math_pow_d :: "number \<Rightarrow> int \<Rightarrow> number" where
  "Math_pow_d u e = rd (Math_pow u e)"

definition binomialPMF_d :: "int \<Rightarrow> int \<Rightarrow> number \<Rightarrow> number" where
  "binomialPMF_d n k p =
     (if k < 0 \<or> k > n then Fin 0
      else rd (rd (binomialCoefficient_d n k * Math_pow_d p k)
               * Math_pow_d (rd (Fin 1 - p)) (n - k)))"

function binomialSum_loop_d :: "int \<Rightarrow> number \<Rightarrow> int \<Rightarrow> int \<Rightarrow> number \<Rightarrow> number" where
  "binomialSum_loop_d n p endK k sum_acc =
     (if k \<le> endK
      then binomialSum_loop_d n p endK (k + 1) (rd (sum_acc + binomialPMF_d n k p))
      else sum_acc)"
  by pat_completeness auto
termination
  by (relation "measure (\<lambda>(n, p, endK, k, sum_acc). nat (endK + 1 - k))") auto

declare binomialSum_loop_d.simps [simp del]

definition binomialSum_d :: "int \<Rightarrow> number \<Rightarrow> real \<Rightarrow> real \<Rightarrow> number" where
  "binomialSum_d n p a b =
     (let startK = max 0 \<lfloor>a\<rfloor>;
          endK = min n \<lfloor>b\<rfloor>
      in binomialSum_loop_d n p endK startK (Fin 0))"

text \<open>
  Notions for the analysis of the rounded loops: a number that is \<^verbatim>\<open>+Infinity\<close> or finite and
  not negative; the factor by which one rounding can reduce a normal number; and the
  invariant of the coefficient loop, which is infinite or at least the exact coefficient
  reduced by two roundings per iteration.
\<close>

definition nonneg_number :: "number \<Rightarrow> bool" where
  "nonneg_number u = (u = PosInf \<or> (\<exists>a. 0 \<le> a \<and> u = Fin a))"

definition rel_down :: real where
  "rel_down = 1 - 1 / 2 ^ 53"

definition coeff_inv :: "int \<Rightarrow> int \<Rightarrow> number \<Rightarrow> bool" where
  "coeff_inv n i r =
     (r = PosInf \<or>
      (\<exists>a. r = Fin a \<and> real (nat n choose nat i) * rel_down ^ (2 * nat i) \<le> a
           \<and> a < overflow_threshold))"

text \<open>
  Notions for the error analysis of the rounded sum: the unit roundoff of a double, half the
  spacing of the subnormal doubles, and a computed number that is finite, not negative, and
  within a relative error \<^verbatim>\<open>e\<close> plus an absolute error \<^verbatim>\<open>\<alpha>\<close> of an exact value \<^verbatim>\<open>X\<close>.
\<close>

definition unit_roundoff :: real where
  "unit_roundoff = 1 / 2 ^ 53"

definition tiny :: real where
  "tiny = 1 / 2 ^ 1075"

definition approx :: "real \<Rightarrow> real \<Rightarrow> real \<Rightarrow> number \<Rightarrow> bool" where
  "approx X e \<alpha> r = (\<exists>a. r = Fin a \<and> 0 \<le> a \<and> \<bar>a - X\<bar> \<le> e * X + \<alpha>)"

section \<open>Arithmetic on finite numbers\<close>

lemma Fin_minus [simp]: "Fin a - Fin b = Fin (a - b)"
  by (simp add: minus_number_def)

lemma Fin_le [simp]: "(Fin a \<le> Fin b) = (a \<le> b)"
  by (auto simp: less_eq_number_def)

lemma Fin_divide [simp]: "b \<noteq> 0 \<Longrightarrow> Fin a / Fin b = Fin (a / b)"
  by simp

lemma Fin_divide_zero [simp]:
  "Fin a / Fin 0 = (if a = 0 then NaN else if 0 < a then PosInf else NegInf)"
  by simp

declare divide_number.simps(5) [simp del]

section \<open>The multiplicative recurrence\<close>

lemma int_Ico_rec: "i < k \<Longrightarrow> {i..<k} = insert i {i + 1..<k}" for i k :: int
  by auto

lemma binomialCoefficient_loop_Fin:
  "0 \<le> i \<Longrightarrow>
   binomialCoefficient_loop n k i (Fin a) =
     Fin (a * (\<Prod>j \<in> {i..<k}. real_of_int (n - j) / real_of_int (j + 1)))"
proof (induction n k i "Fin a" arbitrary: a rule: binomialCoefficient_loop.induct)
  case (1 n k i)
  show ?case
  proof (cases "i < k")
    case True
    have nz: "real_of_int (i + 1) \<noteq> 0" using "1.prems" by simp
    have step: "(Fin a * num (n - i)) / num (i + 1)
                  = Fin (a * real_of_int (n - i) / real_of_int (i + 1))"
      using nz by simp
    have "binomialCoefficient_loop n k i (Fin a)
            = binomialCoefficient_loop n k (i + 1) (Fin (a * real_of_int (n - i) / real_of_int (i + 1)))"
      using True step by (subst binomialCoefficient_loop.simps) simp
    also have "\<dots> = Fin (a * real_of_int (n - i) / real_of_int (i + 1)
                        * (\<Prod>j \<in> {i + 1..<k}. real_of_int (n - j) / real_of_int (j + 1)))"
      using "1.hyps"[OF True step] "1.prems" by simp
    also have "\<dots> = Fin (a * (\<Prod>j \<in> {i..<k}. real_of_int (n - j) / real_of_int (j + 1)))"
      by (simp add: int_Ico_rec[OF True])
    finally show ?thesis .
  next
    case False
    then show ?thesis by (subst binomialCoefficient_loop.simps) simp
  qed
qed

text \<open>
  C10: \<^verbatim>\<open>binomialCoefficient\<close> is exactly symmetric: for every \<^verbatim>\<open>n \<ge> 0\<close> and every \<^verbatim>\<open>k\<close> with
  \<^verbatim>\<open>0 \<le> k \<le> n\<close>, \<^verbatim>\<open>binomialCoefficient(n, k) = binomialCoefficient(n, n-k)\<close>. Both calls
  take the same early return or run the same loop up to \<^verbatim>\<open>min(k, n-k)\<close>.
\<close>

theorem binomialCoefficient_symmetric:
  "0 \<le> k \<Longrightarrow> k \<le> n \<Longrightarrow> binomialCoefficient n k = binomialCoefficient n (n - k)"
  by (auto simp: binomialCoefficient_def min.commute)

theorem binomialCoefficient_symmetric_witness:
  "(0::int) \<le> 2 \<and> (2::int) \<le> 7 \<and> binomialCoefficient 7 2 = binomialCoefficient 7 (7 - 2)"
  using binomialCoefficient_symmetric[of 2 7] by simp

section \<open>The loop computes the binomial coefficient\<close>

lemma choose_step:
  assumes "M < N"
  shows "real (N choose Suc M) * real (Suc M) = real (N - M) * real (N choose M)"
proof -
  obtain N' where N: "N = Suc N'"
    using assms by (cases N) auto
  have "Suc M * (N choose Suc M) = (N - M) * (N choose M)"
    unfolding N using Suc_times_binomial[of M N'] binomial_absorb_comp[of "Suc N'" M]
    by simp
  then have "real (Suc M * (N choose Suc M)) = real ((N - M) * (N choose M))"
    by (rule arg_cong)
  then have "real (Suc M) * real (N choose Suc M) = real (N - M) * real (N choose M)"
    by (simp only: of_nat_mult)
  then show ?thesis
    by (simp only: mult.commute)
qed

lemma prod_choose:
  "M \<le> N \<Longrightarrow>
   (\<Prod>j \<in> {0..<int M}. real_of_int (int N - j) / real_of_int (j + 1)) = real (N choose M)"
proof (induction M)
  case 0
  then show ?case by simp
next
  case (Suc M)
  then have lt: "M < N" by simp
  have split: "{0..<int (Suc M)} = insert (int M) {0..<int M}"
    by auto
  have "(\<Prod>j \<in> {0..<int (Suc M)}. real_of_int (int N - j) / real_of_int (j + 1))
          = real_of_int (int N - int M) / real_of_int (int M + 1) * real (N choose M)"
    unfolding split using Suc.IH lt by (subst prod.insert) simp_all
  also have "\<dots> = real (N - M) * real (N choose M) / real (Suc M)"
    using lt by (simp add: of_nat_diff add.commute)
  also have "\<dots> = real (N choose Suc M)"
    using choose_step[OF lt] by (simp add: field_simps)
  finally show ?case .
qed

lemma binomialCoefficient_choose:
  assumes "0 \<le> k" "k \<le> n"
  shows "binomialCoefficient n k = Fin (real (nat n choose nat k))"
proof (cases "k = 0 \<or> k = n")
  case True
  then show ?thesis
    using assms by (auto simp: binomialCoefficient_def)
next
  case False
  define m where "m = min k (n - k)"
  have m: "0 \<le> m" "m \<le> n"
    using assms by (auto simp: m_def)
  have "binomialCoefficient n k = binomialCoefficient_loop n m 0 (Fin 1)"
    using False assms by (simp add: binomialCoefficient_def m_def)
  also have "\<dots> = Fin (\<Prod>j \<in> {0..<m}. real_of_int (n - j) / real_of_int (j + 1))"
    using binomialCoefficient_loop_Fin[of 0 n m 1] by simp
  also have "(\<Prod>j \<in> {0..<m}. real_of_int (n - j) / real_of_int (j + 1))
               = real (nat n choose nat m)"
    using prod_choose[of "nat m" "nat n"] m assms by simp
  also have "nat n choose nat m = nat n choose nat k"
  proof (cases "k \<le> n - k")
    case True
    then show ?thesis by (simp add: m_def)
  next
    case False
    then have "m = n - k" by (simp add: m_def)
    moreover have "nat k \<le> nat n" using assms by simp
    moreover have "nat (n - k) = nat n - nat k" using assms by simp
    ultimately show ?thesis
      using binomial_symmetric[of "nat k" "nat n"] by simp
  qed
  finally show ?thesis .
qed

lemma Math_pow_Fin: "0 \<le> e \<Longrightarrow> Math_pow (Fin a) e = Fin (a ^ nat e)"
  by (simp add: Math_pow_def)

lemma binomialPMF_Fin: "binomialPMF n k (Fin p) = Fin (binomial_mass n k p)"
  by (simp add: binomialPMF_def binomial_mass_def binomialCoefficient_choose Math_pow_Fin)

lemma binomial_mass_pos:
  "0 \<le> k \<Longrightarrow> k \<le> n \<Longrightarrow> 0 < p \<Longrightarrow> p < 1 \<Longrightarrow> 0 < binomial_mass n k p"
  by (simp add: binomial_mass_def)

section \<open>The sum over a range\<close>

lemma binomialSum_loop_foldl:
  "binomialSum_loop n p endK k s =
     foldl (\<lambda>sum_acc j. sum_acc + binomialPMF n j p) s [k..endK]"
proof (induction n p endK k s rule: binomialSum_loop.induct)
  case (1 n p endK k s)
  show ?case
  proof (cases "k \<le> endK")
    case True
    then show ?thesis
      using "1.IH"[OF True]
      by (subst binomialSum_loop.simps) (simp add: upto_rec1[OF True])
  next
    case False
    then show ?thesis by (subst binomialSum_loop.simps) simp
  qed
qed

lemma binomialSum_foldl:
  "binomialSum n p a b =
     foldl (\<lambda>sum_acc k. sum_acc + binomialPMF n k p) (Fin 0) [max 0 \<lfloor>a\<rfloor>..min n \<lfloor>b\<rfloor>]"
  by (simp add: binomialSum_def binomialSum_loop_foldl)

lemma binomialSum_Fin:
  "binomialSum n (Fin p) a b = Fin (\<Sum>k \<in> {max 0 \<lfloor>a\<rfloor>..min n \<lfloor>b\<rfloor>}. binomial_mass n k p)"
proof -
  have "foldl (\<lambda>sum_acc k. sum_acc + binomialPMF n k (Fin p)) (Fin s) [i..j]
          = Fin (s + (\<Sum>k \<in> {i..j}. binomial_mass n k p))" for s i j
  proof (induction i j arbitrary: s rule: upto.induct)
    case (1 i j)
    show ?case
    proof (cases "i \<le> j")
      case True
      have split: "{i..j} = insert i {i + 1..j}" using True by auto
      show ?thesis
        using "1.IH"[OF True, of "s + binomial_mass n i p"]
        by (simp add: upto_rec1[OF True] binomialPMF_Fin split)
    next
      case False
      then show ?thesis by simp
    qed
  qed
  from this[of 0] show ?thesis
    by (simp add: binomialSum_foldl)
qed

lemma binomial_mass_total:
  assumes "0 \<le> n"
  shows "(\<Sum>k \<in> {0..n}. binomial_mass n k p) = 1"
proof -
  have "(\<Sum>k \<in> {0..n}. binomial_mass n k p)
          = (\<Sum>k \<in> int ` {0..nat n}. binomial_mass n k p)"
  proof -
    have "int ` {0..nat n} = {0..n}"
      using assms by (simp add: image_int_atLeastAtMost)
    then show ?thesis by simp
  qed
  also have "\<dots> = (\<Sum>k \<in> {0..nat n}. binomial_mass n (int k) p)"
    by (subst sum.reindex) (auto simp: inj_on_def)
  also have "\<dots> = (\<Sum>k \<le> nat n. real (nat n choose k) * p ^ k * (1 - p) ^ (nat n - k))"
    using assms by (intro sum.cong) (auto simp: binomial_mass_def nat_diff_distrib)
  also have "\<dots> = (p + (1 - p)) ^ nat n"
    by (rule binomial_ring[symmetric])
  finally show ?thesis by simp
qed

text \<open>
  In exact arithmetic the masses of all \<^verbatim>\<open>k\<close> from 0 to \<^verbatim>\<open>n\<close> add up to exactly 1, by the
  binomial theorem. This is a statement about the recurrence, not about the rounding error
  of the sum that the program computes in double precision.
\<close>

lemma binomialSum_total_exact:
  "0 \<le> n \<Longrightarrow> binomialSum n (Fin p) 0 (of_int n) = Fin 1"
  by (simp add: binomialSum_Fin binomial_mass_total)

text \<open>
  C3, as the code has it: \<^verbatim>\<open>binomialSum(n, p, a, b)\<close> is the sum of \<^verbatim>\<open>binomialPMF(n, k, p)\<close> for
  the integers \<^verbatim>\<open>k\<close> from \<^verbatim>\<open>max(0, floor(a))\<close> to \<^verbatim>\<open>min(n, floor(b))\<close> inclusive, and it is
  exactly 0 whenever \<^verbatim>\<open>floor(a) > floor(b)\<close>, in particular for all integers \<^verbatim>\<open>a > b\<close>.
\<close>

theorem binomialSum_degenerate:
  "binomialSum n p a b =
     foldl (\<lambda>sum_acc k. sum_acc + binomialPMF n k p) (Fin 0) [max 0 \<lfloor>a\<rfloor>..min n \<lfloor>b\<rfloor>] \<and>
   (\<lfloor>b\<rfloor> < \<lfloor>a\<rfloor> \<longrightarrow> binomialSum n p a b = Fin 0) \<and>
   (j < i \<longrightarrow> binomialSum n p (of_int i) (of_int j) = Fin 0)"
  by (simp add: binomialSum_foldl)

theorem binomialSum_degenerate_witness:
  "\<lfloor>1.2::real\<rfloor> < \<lfloor>2.5::real\<rfloor> \<and> binomialSum 2 (Fin 0.5) 2.5 1.2 = Fin 0 \<and>
   (1::int) < 3 \<and> binomialSum 2 (Fin 0.5) 3 1 = Fin 0"
  using binomialSum_degenerate[of 2 "Fin 0.5" "2.5" "1.2" 1 3] by simp

text \<open>
  C3 as stated fails: \<^verbatim>\<open>a = 1.5 > b = 1.2\<close> have the same floor, the loop runs once for
  \<^verbatim>\<open>k = 1\<close>, and \<^verbatim>\<open>binomialSum(2, 0.5, 1.5, 1.2)\<close> is \<^verbatim>\<open>binomialPMF(2, 1, 0.5) = 0.5\<close>.
\<close>

theorem binomialSum_degenerate_counterexample:
  "(1::int) \<le> 2 \<and> (0::real) < 0.5 \<and> (0.5::real) < 1 \<and> (1.5::real) > 1.2 \<and>
   binomialSum 2 (Fin 0.5) 1.5 1.2 = Fin 0.5 \<and> binomialSum 2 (Fin 0.5) 1.5 1.2 \<noteq> Fin 0"
  by (simp add: binomialSum_foldl binomialPMF_def binomialCoefficient_def
      binomialCoefficient_loop.simps Math_pow_def)

text \<open>
  C2 as stated fails: with \<^verbatim>\<open>xMin = xMax = 1\<close> and \<^verbatim>\<open>n = 1\<close> the call returns the number
  \<^verbatim>\<open>binomialPMF(1, 1, 0.5) = 0.5\<close>; no error is raised.
\<close>

theorem binomialSum_range_error_counterexample:
  "(1::real) \<ge> 1 \<and> binomialSum_call 1 (Fin 0.5) 1 1 = Inr (Fin 0.5) \<and>
   binomialSum_call 1 (Fin 0.5) 1 1 \<noteq> Inl InvalidRangeError"
  by (simp add: binomialSum_call_def binomialSum_foldl binomialPMF_def binomialCoefficient_def
      binomialCoefficient_loop.simps Math_pow_def)

text \<open>
  C2, as the code has it: for all bounds, also with \<^verbatim>\<open>xMin \<ge> xMax\<close> or a bound outside
  \<^verbatim>\<open>[0, n]\<close>, \<^verbatim>\<open>binomialSum\<close> raises nothing and returns the sum of \<^verbatim>\<open>binomialPMF(n, k, p)\<close> over
  the integers from \<^verbatim>\<open>max(0, floor(xMin))\<close> to \<^verbatim>\<open>min(n, floor(xMax))\<close>; \<^verbatim>\<open>normalIntegral\<close> raises
  nothing and returns \<^verbatim>\<open>normalCDF(b) - normalCDF(a)\<close>.
\<close>

theorem binomialSum_returns:
  "binomialSum_call n p xMin xMax =
     Inr (foldl (\<lambda>sum_acc k. sum_acc + binomialPMF n k p) (Fin 0)
            [max 0 \<lfloor>xMin\<rfloor>..min n \<lfloor>xMax\<rfloor>]) \<and>
   normalIntegral_call a b mean stdDev =
     Inr (normalCDF b mean stdDev - normalCDF a mean stdDev)"
  by (simp add: binomialSum_call_def binomialSum_foldl normalIntegral_call_def normalIntegral_def)

theorem binomialSum_returns_witness:
  "binomialSum_call 3 (Fin 0.5) 7 5 = Inr (Fin 0) \<and>
   normalIntegral_call (Fin 1) (Fin 1) (Fin 0) (Fin 1) =
     Inr (normalCDF (Fin 1) (Fin 0) (Fin 1) - normalCDF (Fin 1) (Fin 0) (Fin 1))"
  using binomialSum_returns[of 3 "Fin 0.5" 7 5 "Fin 1" "Fin 1" "Fin 0" "Fin 1"] by simp

section \<open>The normal density\<close>

lemma normalPDF_Fin:
  "s \<noteq> 0 \<Longrightarrow> normalPDF (Fin x) (Fin m) (Fin s) = Fin (normal_density x m s)"
  by (simp add: normalPDF_def normal_density_def Math_PI_def Math_pow_def)

lemma normalPDF_zero_stdDev: "normalPDF (Fin x) (Fin m) (Fin 0) = NaN"
  by (cases "x = m") (auto simp: normalPDF_def Math_PI_def Math_pow_def)

lemma normal_density_pos: "0 < s \<Longrightarrow> 0 < normal_density x m s"
  by (simp add: normal_density_def)

text \<open>
  C1 as stated fails: with \<^verbatim>\<open>stddev = 0\<close> the coefficient is \<^verbatim>\<open>1 / 0 = Infinity\<close>, the exponent
  is \<^verbatim>\<open>-Infinity\<close>, and \<^verbatim>\<open>normalPDF(1, 0, 0)\<close> returns \<^verbatim>\<open>Infinity * 0 = NaN\<close>; no error is raised.
\<close>

theorem normalPDF_domain_error_counterexample:
  "Fin 0 \<le> Fin 0 \<and> normalPDF_call (Fin 1) (Fin 0) (Fin 0) = Inr NaN \<and>
   normalPDF_call (Fin 1) (Fin 0) (Fin 0) \<noteq> Inl DomainError"
  by (simp add: normalPDF_call_def normalPDF_zero_stdDev)

text \<open>
  C1, as the code has it: for every \<^verbatim>\<open>x\<close>, \<^verbatim>\<open>mean\<close> and \<^verbatim>\<open>stddev\<close>, also with \<^verbatim>\<open>stddev \<le> 0\<close>,
  \<^verbatim>\<open>normalPDF\<close>, \<^verbatim>\<open>normalCDF\<close> and \<^verbatim>\<open>normalIntegral\<close> raise nothing and return a number; for
  finite \<^verbatim>\<open>x\<close> and \<^verbatim>\<open>mean\<close> and \<^verbatim>\<open>stddev = 0\<close> the number that \<^verbatim>\<open>normalPDF\<close> returns is \<^verbatim>\<open>NaN\<close>.
\<close>

theorem gaussian_returns:
  "normalPDF_call x mean stdDev = Inr (normalPDF x mean stdDev) \<and>
   normalCDF_call x mean stdDev = Inr (normalCDF x mean stdDev) \<and>
   normalIntegral_call a b mean stdDev = Inr (normalIntegral a b mean stdDev) \<and>
   normalPDF_call (Fin xr) (Fin m) (Fin 0) = Inr NaN"
  by (simp add: normalPDF_call_def normalCDF_call_def normalIntegral_call_def
      normalPDF_zero_stdDev)

theorem gaussian_returns_witness:
  "normalPDF_call (Fin 3) (Fin 3) (Fin 0) = Inr NaN \<and>
   normalCDF_call (Fin 0) (Fin 0) (Fin (- 1)) = Inr (normalCDF (Fin 0) (Fin 0) (Fin (- 1)))"
  using gaussian_returns[where x = "Fin 0" and mean = "Fin 0" and stdDev = "Fin (- 1)"
      and xr = 3 and m = 3]
  by simp

section \<open>The error function\<close>

lemma erf_Fin: "erf (Fin x) = Fin ((if x < 0 then - 1 else 1) * erf_y \<bar>x\<bar>)"
proof -
  have nz: "1 + 0.3275911 * \<bar>x\<bar> \<noteq> 0"
  proof -
    have "0 \<le> 0.3275911 * \<bar>x\<bar>" by simp
    then show ?thesis by linarith
  qed
  show ?thesis
    using nz by (simp add: erf_def erf_y_def Let_def)
qed

lemma erf_y_zero: "erf_y 0 = 1 / 10 ^ 9"
  by (simp add: erf_y_def)

lemma erf_odd_exact: "x \<noteq> 0 \<Longrightarrow> erf (Fin (- x)) = - erf (Fin x)"
  by (auto simp: erf_Fin)

text \<open>
  C8: the approximation is odd-symmetric: \<^verbatim>\<open>erf(0) = 0\<close> and \<^verbatim>\<open>erf(-x) = -erf(x)\<close> for all \<^verbatim>\<open>x\<close>,
  each within the absolute tolerance \<^verbatim>\<open>1.5e-7\<close>. In exact arithmetic \<^verbatim>\<open>erf(0)\<close> is \<^verbatim>\<open>1e-9\<close>, the
  coefficients adding up to \<^verbatim>\<open>0.999999999\<close>; for \<^verbatim>\<open>x\<close> other than 0 the two sides are equal.
\<close>

theorem erf_odd:
  "close_to 0.00000015 (erf (Fin 0)) (Fin 0) \<and>
   close_to 0.00000015 (erf (Fin (- x))) (- erf (Fin x))"
  by (cases "x = 0") (auto simp: erf_Fin erf_y_zero)

theorem erf_odd_witness:
  "close_to 0.00000015 (erf (Fin 0)) (Fin 0) \<and>
   close_to 0.00000015 (erf (Fin (- 2))) (- erf (Fin 2))"
  using erf_odd[of 2] by simp

section \<open>The series\<close>

lemma firstPass_eq:
  "firstPass n p k (probs, mx) =
     (probs @ map (\<lambda>j. binomialPMF n j p) [k..n],
      foldl (\<lambda>m v. if v > m then v else m) mx (map (\<lambda>j. binomialPMF n j p) [k..n]))"
proof (induction k n arbitrary: probs mx rule: upto.induct)
  case (1 k n)
  show ?case
  proof (cases "k \<le> n")
    case True
    show ?thesis
      using "1.IH"[OF True]
      by (subst firstPass.simps) (simp add: True upto_rec1[OF True] Let_def)
  next
    case False
    then show ?thesis by (subst firstPass.simps) simp
  qed
qed

lemma maxNormalPass_eq:
  "maxNormalPass n u m s k mx =
     foldl (\<lambda>m' v. if v > m' then v else m') mx
       (map (\<lambda>j. normalPDF (x_of n u j) m s) [k..n])"
proof (induction n u m s k mx rule: maxNormalPass.induct)
  case (1 n u m s k mx)
  show ?case
  proof (cases "k \<le> n")
    case True
    show ?thesis
      using "1.IH"[OF True refl]
      by (subst maxNormalPass.simps) (simp add: True upto_rec1[OF True] Let_def)
  next
    case False
    then show ?thesis by (subst maxNormalPass.simps) simp
  qed
qed

lemma secondPass_eq:
  "secondPass n u m s c bs k data =
     data @ map (\<lambda>j. \<lparr>point_x = x_of n u j, point_y = bs ! nat j,
                       point_normalY = normalPDF (x_of n u j) m s * c\<rparr>) [k..n]"
proof (induction n u m s c bs k data rule: secondPass.induct)
  case (1 n u m s c bs k data)
  show ?case
  proof (cases "k \<le> n")
    case True
    show ?thesis
      using "1.IH"[OF True refl refl]
      by (subst secondPass.simps) (simp add: True upto_rec1[OF True] Let_def)
  next
    case False
    then show ?thesis by (subst secondPass.simps) simp
  qed
qed

lemma binomialProbs_of_eq: "binomialProbs_of n p = map (\<lambda>j. binomialPMF n j p) [0..n]"
  by (simp add: binomialProbs_of_def firstPass_eq)

lemma length_binomialProbs: "length (binomialProbs_of n p) = nat (n + 1)"
  by (simp add: binomialProbs_of_eq)

lemma binomialProbs_nth:
  "0 \<le> k \<Longrightarrow> k \<le> n \<Longrightarrow> binomialProbs_of n p ! nat k = binomialPMF n k p"
  by (simp add: binomialProbs_of_eq)

lemma generateBinomialData_eq:
  "generateBinomialData n p u =
     map (\<lambda>k. \<lparr>point_x = x_of n u k, point_y = binomialPMF n k p,
               point_normalY =
                 normalPDF (x_of n u k) (meanForPDF n p u) (stdDevForPDF n p u)
                   * scaleFactor (maxBinomial_of n p) (maxNormal_of n p u)\<rparr>) [0..n]"
  unfolding generateBinomialData_def secondPass_eq
  by (simp add: binomialProbs_nth)

lemma running_max_Fin:
  "foldl (\<lambda>m v. if v > m then v else m) (Fin a) (map (\<lambda>j. Fin (f j)) js) =
     Fin (Max (insert a (f ` set js)))"
proof (induction js arbitrary: a)
  case Nil
  then show ?case by simp
next
  case (Cons j js)
  have "Max (insert (max a (f j)) (f ` set js)) = Max (insert a (insert (f j) (f ` set js)))"
    by (cases "set js = {}") (simp_all add: max.assoc)
  moreover have "(if Fin (f j) > Fin a then Fin (f j) else Fin a) = Fin (max a (f j))"
    by (simp add: max_def)
  ultimately show ?case
    using Cons.IH[of "max a (f j)"] by simp
qed

lemma x_of_Fin:
  "1 \<le> n \<Longrightarrow> x_of n u k = Fin (if u then real_of_int k / real_of_int n else real_of_int k)"
  by (simp add: x_of_def)

lemma maxBinomial_of_eq:
  "maxBinomial_of n p =
     foldl (\<lambda>m v. if v > m then v else m) (Fin 0) (map (\<lambda>k. binomialPMF n k p) [0..n])"
  by (simp add: maxBinomial_of_def firstPass_eq)

lemma maxNormal_of_eq:
  "maxNormal_of n p u =
     foldl (\<lambda>m v. if v > m then v else m) (Fin 0)
       (map (\<lambda>k. normalPDF (x_of n u k) (meanForPDF n p u) (stdDevForPDF n p u)) [0..n])"
  by (simp add: maxNormal_of_def maxNormalPass_eq)

lemma scaleFactor_cases:
  "(Fin 0 < maxNormal \<and> Fin 0 < maxBinomial \<longrightarrow>
      scaleFactor maxBinomial maxNormal = maxBinomial / maxNormal) \<and>
   (\<not> (Fin 0 < maxNormal \<and> Fin 0 < maxBinomial) \<longrightarrow>
      scaleFactor maxBinomial maxNormal = Fin 1) \<and>
   (maxNormal = Fin 0 \<longrightarrow>
      scaleFactor maxBinomial maxNormal = Fin 1 \<and>
      scaleFactor maxBinomial maxNormal \<notin> {NaN, PosInf, NegInf})"
  by (simp add: scaleFactor_def)

text \<open>
  C5: in the series, the factor that multiplies every density is \<^verbatim>\<open>maxBinomial / maxNormal\<close>
  when both running maxima are strictly positive and 1 otherwise, the running maxima being
  those of the two loops over \<^verbatim>\<open>k = 0..n\<close>, each started at 0. In particular, when
  \<^verbatim>\<open>maxNormal = 0\<close> the factor is 1, neither \<^verbatim>\<open>NaN\<close> nor infinite, and every \<^verbatim>\<open>normalY\<close> is the
  density times 1.
\<close>

theorem scaleFactor_in_series:
  "maxBinomial_of n p =
     foldl (\<lambda>m v. if v > m then v else m) (Fin 0) (map (\<lambda>k. binomialPMF n k p) [0..n]) \<and>
   maxNormal_of n p u =
     foldl (\<lambda>m v. if v > m then v else m) (Fin 0)
       (map (\<lambda>k. normalPDF (x_of n u k) (meanForPDF n p u) (stdDevForPDF n p u)) [0..n]) \<and>
   map point_normalY (generateBinomialData n p u) =
     map (\<lambda>k. normalPDF (x_of n u k) (meanForPDF n p u) (stdDevForPDF n p u)
               * (if Fin 0 < maxNormal_of n p u \<and> Fin 0 < maxBinomial_of n p
                  then maxBinomial_of n p / maxNormal_of n p u else Fin 1)) [0..n] \<and>
   (maxNormal_of n p u = Fin 0 \<longrightarrow>
      map point_normalY (generateBinomialData n p u) =
        map (\<lambda>k. normalPDF (x_of n u k) (meanForPDF n p u) (stdDevForPDF n p u) * Fin 1) [0..n] \<and>
      scaleFactor (maxBinomial_of n p) (maxNormal_of n p u) = Fin 1 \<and>
      scaleFactor (maxBinomial_of n p) (maxNormal_of n p u) \<notin> {NaN, PosInf, NegInf})"
proof -
  have series: "map point_normalY (generateBinomialData n p u) =
     map (\<lambda>k. normalPDF (x_of n u k) (meanForPDF n p u) (stdDevForPDF n p u)
               * scaleFactor (maxBinomial_of n p) (maxNormal_of n p u)) [0..n]"
    by (simp add: generateBinomialData_eq comp_def)
  show ?thesis
    unfolding series
    using maxBinomial_of_eq[of n p] maxNormal_of_eq[of n p u]
      scaleFactor_cases[of "maxNormal_of n p u" "maxBinomial_of n p"]
    by (auto simp: scaleFactor_def)
qed

theorem scaleFactor_in_series_witness:
  "maxNormal_of 1 (Fin 0) False = Fin 0 \<and>
   scaleFactor (maxBinomial_of 1 (Fin 0)) (maxNormal_of 1 (Fin 0) False) = Fin 1 \<and>
   map point_normalY (generateBinomialData 1 (Fin 0) False) = [NaN, NaN]"
proof -
  have pdf: "normalPDF (x_of 1 False k) (meanForPDF 1 (Fin 0) False)
               (stdDevForPDF 1 (Fin 0) False) = NaN" for k
    by (simp add: meanForPDF_def stdDevForPDF_def mean_of_def stdDev_of_def
        normalPDF_zero_stdDev x_of_def)
  have mn: "maxNormal_of 1 (Fin 0) False = Fin 0"
    by (simp add: maxNormal_of_eq upto_rec1 pdf)
  have "maxNormal_of 1 (Fin 0) False = Fin 0 \<longrightarrow>
      map point_normalY (generateBinomialData 1 (Fin 0) False) =
        map (\<lambda>k. normalPDF (x_of 1 False k) (meanForPDF 1 (Fin 0) False)
                  (stdDevForPDF 1 (Fin 0) False) * Fin 1) [0..1] \<and>
      scaleFactor (maxBinomial_of 1 (Fin 0)) (maxNormal_of 1 (Fin 0) False) = Fin 1 \<and>
      scaleFactor (maxBinomial_of 1 (Fin 0)) (maxNormal_of 1 (Fin 0) False)
        \<notin> {NaN, PosInf, NegInf}"
    using scaleFactor_in_series[of 1 "Fin 0" False] by blast
  with mn have ny: "map point_normalY (generateBinomialData 1 (Fin 0) False) =
        map (\<lambda>k. normalPDF (x_of 1 False k) (meanForPDF 1 (Fin 0) False)
                  (stdDevForPDF 1 (Fin 0) False) * Fin 1) [0..1]"
    and sf: "scaleFactor (maxBinomial_of 1 (Fin 0)) (maxNormal_of 1 (Fin 0) False) = Fin 1"
    by blast+
  have "map point_normalY (generateBinomialData 1 (Fin 0) False) = [NaN, NaN]"
    unfolding ny by (simp add: pdf upto_rec1)
  with mn sf show ?thesis by blast
qed

text \<open>
  C4: for \<^verbatim>\<open>n \<ge> 1\<close> the series has exactly \<^verbatim>\<open>n + 1\<close> points with strictly increasing \<^verbatim>\<open>x\<close>. The
  point of index \<^verbatim>\<open>k\<close> has \<^verbatim>\<open>x = k\<close>, or \<^verbatim>\<open>x = k/n\<close> with proportions; \<^verbatim>\<open>y\<close> is the value that the
  first pass stored, \<^verbatim>\<open>binomialPMF(n, k, p)\<close>; \<^verbatim>\<open>normalY\<close> is \<^verbatim>\<open>normalPDF(x, mean, stddev)\<close> times the
  scale factor, with \<^verbatim>\<open>mean = n*p\<close> and \<^verbatim>\<open>stddev = sqrt(n*p*(1-p))\<close> for counts and \<^verbatim>\<open>mean = p\<close>
  and \<^verbatim>\<open>stddev = sqrt(p*(1-p)/n)\<close> for proportions.
\<close>

theorem generateBinomialData_points:
  assumes "1 \<le> n"
  shows "length (generateBinomialData n p u) = nat (n + 1) \<and>
    (\<forall>k. 0 \<le> k \<and> k \<le> n \<longrightarrow>
       generateBinomialData n p u ! nat k =
         \<lparr>point_x = (if u then Fin (real_of_int k / real_of_int n) else num k),
          point_y = binomialProbs_of n p ! nat k,
          point_normalY =
            normalPDF (if u then Fin (real_of_int k / real_of_int n) else num k)
              (if u then p else num n * p)
              (if u then Math_sqrt ((p * (Fin 1 - p)) / num n)
               else Math_sqrt (num n * p * (Fin 1 - p)))
            * scaleFactor (maxBinomial_of n p) (maxNormal_of n p u)\<rparr> \<and>
       binomialProbs_of n p ! nat k = binomialPMF n k p) \<and>
    (\<forall>i j. 0 \<le> i \<and> i < j \<and> j \<le> n \<longrightarrow>
       point_x (generateBinomialData n p u ! nat i)
         < point_x (generateBinomialData n p u ! nat j))"
proof (intro conjI allI impI)
  show "length (generateBinomialData n p u) = nat (n + 1)"
    by (simp add: generateBinomialData_eq)
next
  fix k assume k: "0 \<le> k \<and> k \<le> n"
  then show "binomialProbs_of n p ! nat k = binomialPMF n k p"
    by (simp add: binomialProbs_nth)
  from k have "nat k < length [0..n]" by simp
  then have "generateBinomialData n p u ! nat k =
      \<lparr>point_x = x_of n u k, point_y = binomialPMF n k p,
       point_normalY =
         normalPDF (x_of n u k) (meanForPDF n p u) (stdDevForPDF n p u)
           * scaleFactor (maxBinomial_of n p) (maxNormal_of n p u)\<rparr>"
    using k unfolding generateBinomialData_eq by (subst nth_map) simp_all
  then show "generateBinomialData n p u ! nat k =
         \<lparr>point_x = (if u then Fin (real_of_int k / real_of_int n) else num k),
          point_y = binomialProbs_of n p ! nat k,
          point_normalY =
            normalPDF (if u then Fin (real_of_int k / real_of_int n) else num k)
              (if u then p else num n * p)
              (if u then Math_sqrt ((p * (Fin 1 - p)) / num n)
               else Math_sqrt (num n * p * (Fin 1 - p)))
            * scaleFactor (maxBinomial_of n p) (maxNormal_of n p u)\<rparr>"
    using k assms
    by (simp add: x_of_Fin binomialProbs_nth meanForPDF_def stdDevForPDF_def mean_of_def
        stdDev_of_def)
next
  fix i j assume ij: "0 \<le> i \<and> i < j \<and> j \<le> n"
  then have "nat i < length [0..n]" "nat j < length [0..n]" by simp_all
  then have "point_x (generateBinomialData n p u ! nat i) = x_of n u i"
    and "point_x (generateBinomialData n p u ! nat j) = x_of n u j"
    using ij unfolding generateBinomialData_eq by simp_all
  moreover have "x_of n u i < x_of n u j"
    using ij assms by (simp add: x_of_Fin divide_strict_right_mono)
  ultimately show "point_x (generateBinomialData n p u ! nat i)
         < point_x (generateBinomialData n p u ! nat j)"
    by simp
qed

theorem generateBinomialData_points_witness:
  "length (generateBinomialData 2 (Fin 0.5) True) = 3 \<and>
   point_x (generateBinomialData 2 (Fin 0.5) True ! 1) = Fin 0.5 \<and>
   point_y (generateBinomialData 2 (Fin 0.5) True ! 1) = binomialPMF 2 1 (Fin 0.5) \<and>
   point_x (generateBinomialData 2 (Fin 0.5) True ! 1)
     < point_x (generateBinomialData 2 (Fin 0.5) True ! 2)"
proof -
  have h: "(1::int) \<le> 2" by simp
  note t = generateBinomialData_points[OF h, of "Fin 0.5" True]
  from t have len: "length (generateBinomialData 2 (Fin 0.5) True) = 3" by simp
  from t have pt: "0 \<le> (1::int) \<and> (1::int) \<le> 2 \<longrightarrow>
       generateBinomialData 2 (Fin 0.5) True ! nat 1 =
         \<lparr>point_x = (if True then Fin (real_of_int 1 / real_of_int 2) else num 1),
          point_y = binomialProbs_of 2 (Fin 0.5) ! nat 1,
          point_normalY =
            normalPDF (if True then Fin (real_of_int 1 / real_of_int 2) else num 1)
              (if True then Fin 0.5 else num 2 * Fin 0.5)
              (if True then Math_sqrt ((Fin 0.5 * (Fin 1 - Fin 0.5)) / num 2)
               else Math_sqrt (num 2 * Fin 0.5 * (Fin 1 - Fin 0.5)))
            * scaleFactor (maxBinomial_of 2 (Fin 0.5)) (maxNormal_of 2 (Fin 0.5) True)\<rparr> \<and>
       binomialProbs_of 2 (Fin 0.5) ! nat 1 = binomialPMF 2 1 (Fin 0.5)"
    by blast
  from t have inc: "0 \<le> (1::int) \<and> (1::int) < 2 \<and> (2::int) \<le> 2 \<longrightarrow>
       point_x (generateBinomialData 2 (Fin 0.5) True ! nat 1)
         < point_x (generateBinomialData 2 (Fin 0.5) True ! nat 2)"
    by blast
  show ?thesis
    using len pt inc by (simp add: eval_nat_numeral)
qed

lemma stdDevForPDF_Fin:
  assumes "1 \<le> n" "0 < p" "p < 1"
  shows "\<exists>s. 0 < s \<and> stdDevForPDF n (Fin p) u = Fin s"
proof -
  have n: "0 < real_of_int n" using assms by simp
  have pq: "0 < p * (1 - p)" using assms by simp
  show ?thesis
  proof (cases u)
    case True
    have pos: "0 < p * (1 - p) / real_of_int n" using n pq by simp
    then have "stdDevForPDF n (Fin p) u = Fin (sqrt (p * (1 - p) / real_of_int n))"
      using True n by (simp add: stdDevForPDF_def)
    with pos show ?thesis by simp
  next
    case False
    have pos: "0 < real_of_int n * p * (1 - p)" using n assms by simp
    then have "stdDevForPDF n (Fin p) u = Fin (sqrt (real_of_int n * p * (1 - p)))"
      using False by (simp add: stdDevForPDF_def stdDev_of_def)
    with pos show ?thesis by simp
  qed
qed

lemma meanForPDF_Fin: "\<exists>m. meanForPDF n (Fin p) u = Fin m"
  by (simp add: meanForPDF_def mean_of_def)

lemma Max_insert_zero:
  assumes "finite S" "S \<noteq> {}" "\<forall>v \<in> S. (0::real) < v"
  shows "Max (insert 0 S) = Max S" "0 < Max S"
proof -
  have "Max S \<in> S" using assms by simp
  then show "0 < Max S" using assms by blast
  then show "Max (insert 0 S) = Max S"
    using assms by simp
qed

text \<open>
  C9: for \<^verbatim>\<open>n \<ge> 1\<close> and \<^verbatim>\<open>p\<close> in \<^verbatim>\<open>(0,1)\<close> both running maxima are strictly positive, and the
  largest \<^verbatim>\<open>normalY\<close> of the series equals the largest \<^verbatim>\<open>y\<close>: the scaled normal peak has the
  height of the binomial peak.
\<close>

theorem scaled_normal_peak:
  assumes "1 \<le> n" "0 < p" "p < 1"
  shows "Fin 0 < maxBinomial_of n (Fin p) \<and> Fin 0 < maxNormal_of n (Fin p) u \<and>
    (\<exists>m. is_maximum m (map point_normalY (generateBinomialData n (Fin p) u)) \<and>
         is_maximum m (map point_y (generateBinomialData n (Fin p) u)))"
proof -
  obtain s where s: "0 < s" "stdDevForPDF n (Fin p) u = Fin s"
    using stdDevForPDF_Fin[OF assms] by blast
  obtain mu where mu: "meanForPDF n (Fin p) u = Fin mu"
    using meanForPDF_Fin by blast
  define xr where "xr k = (if u then real_of_int k / real_of_int n else real_of_int k)" for k
  define B where "B k = binomial_mass n k p" for k
  define D where "D k = normal_density (xr k) mu s" for k
  define MB where "MB = Max (B ` {0..n})"
  define MN where "MN = Max (D ` {0..n})"
  have fin: "finite (B ` {0..n})" "finite (D ` {0..n})" by simp_all
  have ne: "B ` {0..n} \<noteq> {}" "D ` {0..n} \<noteq> {}" using assms by simp_all
  have B_pos: "\<forall>v \<in> B ` {0..n}. 0 < v"
    using assms by (auto simp: B_def binomial_mass_pos)
  have D_pos: "\<forall>v \<in> D ` {0..n}. 0 < v"
    using s by (auto simp: D_def normal_density_pos)
  have pdf: "normalPDF (x_of n u k) (meanForPDF n (Fin p) u) (stdDevForPDF n (Fin p) u)
               = Fin (D k)" for k
    using s assms by (simp add: mu x_of_Fin normalPDF_Fin D_def xr_def)

  have maxB: "maxBinomial_of n (Fin p) = Fin MB"
  proof -
    have "maxBinomial_of n (Fin p) = Fin (Max (insert 0 (B ` {0..n})))"
      unfolding maxBinomial_of_def firstPass_eq
      using running_max_Fin[of 0 B "[0..n]"] by (simp add: binomialPMF_Fin B_def)
    then show ?thesis
      using Max_insert_zero(1)[OF fin(1) ne(1) B_pos] by (simp add: MB_def)
  qed
  have maxN: "maxNormal_of n (Fin p) u = Fin MN"
  proof -
    have "maxNormal_of n (Fin p) u = Fin (Max (insert 0 (D ` {0..n})))"
      unfolding maxNormal_of_def maxNormalPass_eq
      using running_max_Fin[of 0 D "[0..n]"] by (simp add: pdf)
    then show ?thesis
      using Max_insert_zero(1)[OF fin(2) ne(2) D_pos] by (simp add: MN_def)
  qed
  have MB_pos: "0 < MB" unfolding MB_def by (rule Max_insert_zero(2)[OF fin(1) ne(1) B_pos])
  have MN_pos: "0 < MN" unfolding MN_def by (rule Max_insert_zero(2)[OF fin(2) ne(2) D_pos])
  have scale: "scaleFactor (maxBinomial_of n (Fin p)) (maxNormal_of n (Fin p) u) = Fin (MB / MN)"
    using MB_pos MN_pos by (simp add: maxB maxN scaleFactor_def)

  have ys: "map point_y (generateBinomialData n (Fin p) u) = map (\<lambda>k. Fin (B k)) [0..n]"
    by (simp add: generateBinomialData_eq binomialPMF_Fin B_def comp_def)
  have nys: "map point_normalY (generateBinomialData n (Fin p) u)
               = map (\<lambda>k. Fin (D k * (MB / MN))) [0..n]"
    by (simp add: generateBinomialData_eq pdf scale comp_def)

  have MB_in: "MB \<in> B ` {0..n}" unfolding MB_def using fin(1) ne(1) by (rule Max_in)
  have MB_ge: "v \<le> MB" if "v \<in> B ` {0..n}" for v
    unfolding MB_def using fin(1) that by (rule Max_ge)
  have MN_in: "MN \<in> D ` {0..n}" unfolding MN_def using fin(2) ne(2) by (rule Max_in)
  have MN_ge: "v \<le> MN" if "v \<in> D ` {0..n}" for v
    unfolding MN_def using fin(2) that by (rule Max_ge)

  have max_y: "is_maximum (Fin MB) (map point_y (generateBinomialData n (Fin p) u))"
    unfolding ys is_maximum_def using MB_in MB_ge by auto
  have max_ny: "is_maximum (Fin MB) (map point_normalY (generateBinomialData n (Fin p) u))"
  proof -
    obtain k where k: "k \<in> {0..n}" "D k = MN" using MN_in by auto
    have "D k * (MB / MN) = MB" using k MN_pos by simp
    then have mem: "Fin MB \<in> set (map (\<lambda>k. Fin (D k * (MB / MN))) [0..n])"
      using k(1) by (auto simp: image_iff intro!: bexI[of _ k])
    have le: "D j * (MB / MN) \<le> MB" if "j \<in> {0..n}" for j
    proof -
      have "D j \<le> MN" using that by (intro MN_ge) simp
      moreover have "0 \<le> MB / MN" using MB_pos MN_pos by simp
      ultimately have "D j * (MB / MN) \<le> MN * (MB / MN)"
        by (rule mult_right_mono)
      then show ?thesis using MN_pos by simp
    qed
    show ?thesis
      unfolding nys is_maximum_def using mem le by auto
  qed
  show ?thesis
    using max_y max_ny MB_pos MN_pos by (auto simp: maxB maxN)
qed

theorem scaled_normal_peak_witness:
  "(1::int) \<le> 4 \<and> (0::real) < 0.3 \<and> (0.3::real) < 1 \<and>
   Fin 0 < maxBinomial_of 4 (Fin 0.3) \<and> Fin 0 < maxNormal_of 4 (Fin 0.3) False \<and>
    (\<exists>m. is_maximum m (map point_normalY (generateBinomialData 4 (Fin 0.3) False)) \<and>
         is_maximum m (map point_y (generateBinomialData 4 (Fin 0.3) False)))"
proof -
  have h: "(1::int) \<le> 4" "(0::real) < 0.3" "(0.3::real) < 1" by simp_all
  show ?thesis
    using h scaled_normal_peak[OF h, of False] by simp
qed

section \<open>Rounding to a double\<close>

lemma rhe_int [simp]: "round_half_even (of_int m) = m"
  by (simp add: round_half_even_def)

lemma rhe_near:
  assumes "\<bar>y - of_int m\<bar> < 1 / 2"
  shows "round_half_even y = m"
proof (cases "of_int m \<le> y")
  case True
  then have f: "\<lfloor>y\<rfloor> = m" using assms by (intro floor_unique) auto
  show ?thesis using assms True by (simp add: round_half_even_def f Let_def)
next
  case False
  then have f: "\<lfloor>y\<rfloor> = m - 1" using assms by (intro floor_unique) auto
  show ?thesis using assms False by (auto simp: round_half_even_def f Let_def)
qed

lemma rhe_bounds: "\<lfloor>y\<rfloor> \<le> round_half_even y" "round_half_even y \<le> \<lfloor>y\<rfloor> + 1"
  by (auto simp: round_half_even_def Let_def)

lemma rhe_err: "\<bar>of_int (round_half_even y) - y\<bar> \<le> 1 / 2"
  unfolding round_half_even_def Let_def
  by (auto simp: abs_le_iff)

lemma rhe_mono:
  assumes "a \<le> b"
  shows "round_half_even a \<le> round_half_even b"
proof (cases "\<lfloor>a\<rfloor> = \<lfloor>b\<rfloor>")
  case True
  then show ?thesis
    using assms by (auto simp: round_half_even_def Let_def)
next
  case False
  then have "\<lfloor>a\<rfloor> + 1 \<le> \<lfloor>b\<rfloor>"
    using assms floor_mono[OF assms] by linarith
  then show ?thesis
    using rhe_bounds(2)[of a] rhe_bounds(1)[of b] by linarith
qed

lemma expo_unique:
  assumes "2 powi k \<le> x" "x < 2 powi (k + 1)"
  shows "\<lfloor>log 2 x\<rfloor> = k"
proof -
  have pos: "0 < x"
    using assms(1) zero_less_power_int[of "2::real" k] by linarith
  have "2 powr real_of_int k \<le> x \<and> x < 2 powr (real_of_int k + 1)"
    using assms powr_real_of_int'[of 2 k] powr_real_of_int'[of 2 "k + 1"]
    by (simp add: add.commute)
  then show ?thesis
    using floor_log_eq_powr_iff[of x 2 k] pos by simp
qed

lemma expo_bounds:
  assumes "0 < x"
  shows "2 powi \<lfloor>log 2 x\<rfloor> \<le> x" "x < 2 powi (\<lfloor>log 2 x\<rfloor> + 1)"
proof -
  have "2 powr real_of_int \<lfloor>log 2 x\<rfloor> \<le> x \<and> x < 2 powr (real_of_int \<lfloor>log 2 x\<rfloor> + 1)"
    using floor_log_eq_powr_iff[of x 2 "\<lfloor>log 2 x\<rfloor>"] assms by simp
  then show "2 powi \<lfloor>log 2 x\<rfloor> \<le> x" "x < 2 powi (\<lfloor>log 2 x\<rfloor> + 1)"
    using powr_real_of_int'[of 2 "\<lfloor>log 2 x\<rfloor>"] powr_real_of_int'[of 2 "\<lfloor>log 2 x\<rfloor> + 1"]
    by (simp_all add: add.commute)
qed

lemma quantum_pos [simp]: "0 < quantum x"
  by (simp add: quantum_def)

lemma quantum_nonneg [simp]: "0 \<le> quantum x"
  using quantum_pos[of x] by linarith

lemma quantum_nonzero [simp]: "quantum x \<noteq> 0"
  using quantum_pos[of x] by linarith

lemma round_double_pos:
  "0 < x \<Longrightarrow>
   round_double x =
     (if overflow_threshold \<le> round_magnitude x then PosInf else Fin (round_magnitude x))"
  by (simp add: round_double_def Let_def)

lemma round_double_neg: "round_double (- x) = - round_double x"
  by (cases "x = 0"; cases "0 < x") (auto simp: round_double_def Let_def sgn_if)

lemma binade_eq:
  assumes "2 powi k \<le> x" "x < 2 powi (k + 1)" "- 1022 \<le> k"
  shows "binade x = k"
  using expo_unique[OF assms(1,2)] assms(3) by (simp add: binade_def)

lemma binade_normal:
  assumes "2 powi (- 1022) \<le> x"
  shows "binade x = \<lfloor>log 2 x\<rfloor>" "2 powi binade x \<le> x" "x < 2 powi (binade x + 1)"
proof -
  have pos: "0 < x"
    using assms zero_less_power_int[of "2::real" "- 1022"] by linarith
  have "- 1022 \<le> \<lfloor>log 2 x\<rfloor>"
  proof (rule ccontr)
    assume "\<not> - 1022 \<le> \<lfloor>log 2 x\<rfloor>"
    then have "\<lfloor>log 2 x\<rfloor> + 1 \<le> - 1022" by linarith
    then have "(2::real) powi (\<lfloor>log 2 x\<rfloor> + 1) \<le> 2 powi (- 1022)"
      by (intro power_int_increasing) simp_all
    with expo_bounds(2)[OF pos] assms show False by linarith
  qed
  then show b: "binade x = \<lfloor>log 2 x\<rfloor>" by (simp add: binade_def)
  show "2 powi binade x \<le> x" "x < 2 powi (binade x + 1)"
    unfolding b using expo_bounds[OF pos] by simp_all
qed

lemma binade_upper:
  assumes "0 < x"
  shows "x < 2 powi (binade x + 1)"
proof -
  have "(2::real) powi (\<lfloor>log 2 x\<rfloor> + 1) \<le> 2 powi (binade x + 1)"
    by (intro power_int_increasing) (simp_all add: binade_def)
  with expo_bounds(2)[OF assms] show ?thesis by linarith
qed

lemma binade_mono:
  assumes "0 < x" "x \<le> y"
  shows "binade x \<le> binade y"
proof -
  have "log 2 x \<le> log 2 y" using assms by simp
  then have "\<lfloor>log 2 x\<rfloor> \<le> \<lfloor>log 2 y\<rfloor>" by (rule floor_mono)
  then show ?thesis by (simp add: binade_def)
qed

lemma quantum_scale: "quantum x * 2 ^ 52 = 2 powi binade x"
proof -
  have "(2::real) powi binade x = 2 powi (binade x - 52 + 52)" by simp
  also have "\<dots> = 2 powi (binade x - 52) * 2 powi 52"
    by (subst power_int_add) simp_all
  finally show ?thesis by (simp add: quantum_def)
qed

lemma round_magnitude_nonneg: "0 \<le> x \<Longrightarrow> 0 \<le> round_magnitude x"
proof -
  assume "0 \<le> x"
  then have "0 \<le> x / quantum x" by simp
  then have "round_half_even 0 \<le> round_half_even (x / quantum x)" by (rule rhe_mono)
  then have "0 \<le> round_half_even (x / quantum x)"
    using rhe_int[of 0] by simp
  then show ?thesis by (simp add: round_magnitude_def)
qed

lemma round_magnitude_err: "\<bar>round_magnitude x - x\<bar> \<le> quantum x / 2"
proof -
  have "round_magnitude x - x = (of_int (round_half_even (x / quantum x)) - x / quantum x) * quantum x"
    by (simp add: round_magnitude_def algebra_simps)
  then have "\<bar>round_magnitude x - x\<bar>
               = \<bar>of_int (round_half_even (x / quantum x)) - x / quantum x\<bar> * quantum x"
    by (simp add: abs_mult)
  also have "\<dots> \<le> (1 / 2) * quantum x"
    by (intro mult_right_mono rhe_err) simp
  finally show ?thesis by simp
qed

lemma round_magnitude_upper:
  assumes "0 < x"
  shows "round_magnitude x \<le> 2 powi (binade x + 1)"
proof -
  have "x < 2 powi binade x * 2"
    using binade_upper[OF assms] by (simp add: power_int_add)
  then have "x / quantum x \<le> 2 ^ 53"
    using quantum_scale[of x] by (simp add: field_simps)
  then have "round_half_even (x / quantum x) \<le> round_half_even (of_int (2 ^ 53))"
    by (intro rhe_mono) simp
  then have "round_half_even (x / quantum x) \<le> 2 ^ 53"
    by (simp only: rhe_int)
  then have "real_of_int (round_half_even (x / quantum x)) \<le> 2 ^ 53"
    by (metis of_int_le_iff of_int_numeral of_int_power)
  then have "round_magnitude x \<le> 2 ^ 53 * quantum x"
    unfolding round_magnitude_def by (intro mult_right_mono) simp_all
  also have "\<dots> = 2 powi (binade x + 1)"
    using quantum_scale[of x] by (simp add: power_int_add)
  finally show ?thesis .
qed

lemma round_magnitude_lower:
  assumes "2 powi (- 1022) \<le> x"
  shows "2 powi binade x \<le> round_magnitude x"
proof -
  have "2 powi binade x \<le> x" by (rule binade_normal(2)[OF assms])
  then have "2 ^ 52 \<le> x / quantum x"
    using quantum_scale[of x] by (simp add: field_simps)
  then have "round_half_even (of_int (2 ^ 52)) \<le> round_half_even (x / quantum x)"
    by (intro rhe_mono) simp
  then have "2 ^ 52 \<le> round_half_even (x / quantum x)"
    by (simp only: rhe_int)
  then have "2 ^ 52 \<le> real_of_int (round_half_even (x / quantum x))"
    by (metis of_int_le_iff of_int_numeral of_int_power)
  then have "2 ^ 52 * quantum x \<le> round_magnitude x"
    unfolding round_magnitude_def by (intro mult_right_mono) simp_all
  then show ?thesis
    using quantum_scale[of x] by (simp add: mult.commute)
qed

lemma round_double_near:
  assumes "2 powi (j + 52) \<le> x" "x < 2 powi (j + 53)" "- 1074 \<le> j"
    and "\<bar>x / 2 powi j - of_int m\<bar> < 1 / 2" "real_of_int m * 2 powi j < overflow_threshold"
  shows "round_double x = Fin (of_int m * 2 powi j)"
proof -
  have pos: "0 < x"
    using assms(1) zero_less_power_int[of "2::real" "j + 52"] by linarith
  have "binade x = j + 52"
    using assms(1,2,3) by (intro binade_eq) (simp_all add: add.commute add.left_commute)
  then have q: "quantum x = 2 powi j" by (simp add: quantum_def)
  have "round_magnitude x = of_int m * 2 powi j"
    unfolding round_magnitude_def q using rhe_near[OF assms(4)] by simp
  then show ?thesis
    using pos assms(5) by (simp add: round_double_pos)
qed

lemma power_int_less_cancel:
  assumes "(2::real) powi a < 2 powi b"
  shows "a < b"
proof (rule ccontr)
  assume "\<not> a < b"
  then have "b \<le> a" by simp
  then have "(2::real) powi b \<le> 2 powi a" by (intro power_int_increasing) simp_all
  with assms show False by linarith
qed

lemma round_magnitude_exact:
  assumes "0 < m" "m < 2 ^ 53" "- 1074 \<le> j"
  shows "round_magnitude (of_int m * 2 powi j) = of_int m * 2 powi j"
proof -
  define x where "x = real_of_int m * 2 powi j"
  have pos: "0 < x" using assms(1) by (simp add: x_def)
  have "real_of_int m < 2 ^ 53"
    using assms(2) by (metis of_int_less_iff of_int_numeral of_int_power)
  then have "x < 2 ^ 53 * 2 powi j"
    unfolding x_def by (intro mult_strict_right_mono) simp_all
  also have "\<dots> = 2 powi (j + 53)" by (simp add: power_int_add)
  finally have up: "x < 2 powi (j + 53)" .
  have "2 powi \<lfloor>log 2 x\<rfloor> < (2::real) powi (j + 53)"
    using expo_bounds(1)[OF pos] up by linarith
  then have "\<lfloor>log 2 x\<rfloor> < j + 53" by (rule power_int_less_cancel)
  then have b: "binade x \<le> j + 52" using assms(3) by (simp add: binade_def)
  define d where "d = nat (j + 52 - binade x)"
  define q where "q = quantum x"
  have qpos: "0 < q" by (simp add: q_def)
  have j: "j = (binade x - 52) + int d" using b by (simp add: d_def)
  have "(2::real) powi ((binade x - 52) + int d) = 2 powi (binade x - 52) * 2 powi (int d)"
    by (subst power_int_add) simp_all
  then have pj: "2 powi j = q * 2 ^ d"
    using j by (simp add: quantum_def q_def)
  have "x / q = real_of_int (m * 2 ^ d)"
    using qpos by (simp add: x_def pj)
  then have "round_half_even (x / q) = m * 2 ^ d"
    by (simp only: rhe_int)
  then have "round_magnitude x = real_of_int (m * 2 ^ d) * q"
    by (simp add: round_magnitude_def q_def)
  also have "\<dots> = x" by (simp add: x_def pj)
  finally show ?thesis by (simp add: x_def)
qed

lemma round_double_exact:
  assumes "0 < m" "m < 2 ^ 53" "- 1074 \<le> j" "real_of_int m * 2 powi j < overflow_threshold"
  shows "round_double (of_int m * 2 powi j) = Fin (of_int m * 2 powi j)"
proof -
  have "0 < real_of_int m * 2 powi j" using assms(1) by simp
  then show ?thesis
    using round_magnitude_exact[OF assms(1,2,3)] assms(4) by (simp add: round_double_pos)
qed

lemma round_double_int:
  assumes "\<bar>i\<bar> < 2 ^ 53"
  shows "round_double (of_int i) = Fin (of_int i)"
proof -
  have small: "real_of_int m < overflow_threshold" if "m < 2 ^ 53" for m :: int
  proof -
    have "real_of_int m < 2 ^ 53"
      using that by (metis of_int_less_iff of_int_numeral of_int_power)
    also have "(2::real) ^ 53 \<le> 2 ^ 1024" by (intro power_increasing) simp_all
    finally show ?thesis by (simp only: overflow_threshold_def)
  qed
  consider "i = 0" | "0 < i" | "i < 0" by linarith
  then show ?thesis
  proof cases
    case 1
    then show ?thesis by (simp add: round_double_def)
  next
    case 2
    then show ?thesis
      using round_double_exact[of i 0] assms small[of i] by simp
  next
    case 3
    then have "round_double (of_int (- i)) = Fin (of_int (- i))"
      using round_double_exact[of "- i" 0] assms small[of "- i"] by simp
    then show ?thesis
      using round_double_neg[of "of_int i"] by (cases "round_double (of_int i)") simp_all
  qed
qed

lemma overflow_threshold_powi: "overflow_threshold = 2 powi 1024"
proof -
  have "(2::real) powi (int 1024) = 2 ^ 1024" by (rule power_int_of_nat)
  then show ?thesis by (simp only: overflow_threshold_def) simp
qed

lemma round_double_overflow:
  assumes "overflow_threshold \<le> x"
  shows "round_double x = PosInf"
proof -
  have p1024: "(2::real) powi 1024 \<le> x"
    using assms by (simp only: overflow_threshold_powi)
  have pos: "0 < x"
    using p1024 zero_less_power_int[of "2::real" 1024] by linarith
  have low: "(2::real) powi (- 1022) \<le> 2 powi 1024"
    by (intro power_int_increasing) simp_all
  have n: "2 powi (- 1022) \<le> x" using low p1024 by linarith
  have "(2::real) powi 1024 < 2 powi (binade x + 1)"
    using binade_normal(3)[OF n] p1024 by linarith
  then have "1024 < binade x + 1" by (rule power_int_less_cancel)
  then have "(2::real) powi 1024 \<le> 2 powi binade x"
    by (intro power_int_increasing) simp_all
  then have "overflow_threshold \<le> round_magnitude x"
    using round_magnitude_lower[OF n] by (simp only: overflow_threshold_powi)
  then show ?thesis using pos by (simp add: round_double_pos)
qed

lemma round_magnitude_rel:
  assumes "2 powi (- 1022) \<le> x"
  shows "\<bar>round_magnitude x - x\<bar> \<le> x / 2 ^ 53"
proof -
  have "quantum x / 2 = 2 powi binade x / 2 ^ 53"
    using quantum_scale[of x] by (simp add: field_simps)
  also have "\<dots> \<le> x / 2 ^ 53"
    using binade_normal(2)[OF assms] by (simp add: divide_right_mono)
  finally show ?thesis
    using round_magnitude_err[of x] by linarith
qed

lemma round_magnitude_mono:
  assumes "0 < x" "x \<le> y"
  shows "round_magnitude x \<le> round_magnitude y"
proof (cases "binade x = binade y")
  case True
  then have q: "quantum x = quantum y" by (simp add: quantum_def)
  have "x / quantum y \<le> y / quantum y"
    using assms(2) by (simp add: divide_right_mono)
  then have "round_half_even (x / quantum y) \<le> round_half_even (y / quantum y)"
    by (rule rhe_mono)
  then show ?thesis
    unfolding round_magnitude_def q by (intro mult_right_mono) simp_all
next
  case False
  then have lt: "binade x < binade y"
    using binade_mono[OF assms] by linarith
  have ypos: "0 < y" using assms by linarith
  have "- 1022 \<le> binade x" by (simp add: binade_def)
  then have "binade y = \<lfloor>log 2 y\<rfloor>" using lt by (simp add: binade_def max_def split: if_splits)
  then have "2 powi binade y \<le> y" using expo_bounds(1)[OF ypos] by simp
  moreover have "(2::real) powi (- 1022) \<le> 2 powi binade y"
    using lt \<open>- 1022 \<le> binade x\<close> by (intro power_int_increasing) simp_all
  ultimately have "2 powi (- 1022) \<le> y" by linarith
  then have "2 powi binade y \<le> round_magnitude y" by (rule round_magnitude_lower)
  moreover have "round_magnitude x \<le> 2 powi (binade x + 1)"
    by (rule round_magnitude_upper[OF assms(1)])
  moreover have "(2::real) powi (binade x + 1) \<le> 2 powi binade y"
    using lt by (intro power_int_increasing) simp_all
  ultimately show ?thesis by linarith
qed

lemma round_double_nonneg:
  assumes "0 \<le> x"
  shows "round_double x = PosInf \<or> (\<exists>y. 0 \<le> y \<and> round_double x = Fin y)"
proof (cases "x = 0")
  case True
  then show ?thesis by (simp add: round_double_def)
next
  case False
  then have "0 < x" using assms by simp
  then show ?thesis
    using round_magnitude_nonneg[OF assms] by (simp add: round_double_pos)
qed

lemma round_double_mono:
  assumes "0 \<le> x" "x \<le> y"
  shows "round_double x \<le> round_double y"
proof (cases "x = 0")
  case True
  have "0 \<le> y" using assms by linarith
  from round_double_nonneg[OF this] have "Fin 0 \<le> round_double y"
    by (auto simp: less_eq_number_def)
  moreover have "round_double x = Fin 0" by (simp add: True round_double_def)
  ultimately show ?thesis by simp
next
  case False
  then have x: "0 < x" and y: "0 < y" using assms by linarith+
  have "round_magnitude x \<le> round_magnitude y"
    by (rule round_magnitude_mono[OF x assms(2)])
  then show ?thesis
    using x y by (auto simp: round_double_pos less_eq_number_def)
qed

section \<open>The coefficient in double precision\<close>

lemma round_double_numeral [simp]:
  "numeral w < (2 ^ 53 :: int) \<Longrightarrow> round_double (numeral w) = Fin (numeral w)"
  using round_double_int[of "numeral w"] by simp

lemma round_double_0 [simp]: "round_double 0 = Fin 0"
  by (simp add: round_double_def)

lemma round_double_1 [simp]: "round_double 1 = Fin 1"
  using round_double_int[of 1] by simp

lemma dnum_numeral [simp]:
  "numeral w < (2 ^ 53 :: int) \<Longrightarrow> dnum (numeral w) = Fin (numeral w)"
  by (simp add: dnum_def)

lemma dnum_0 [simp]: "dnum 0 = Fin 0"
  by (simp add: dnum_def)

lemma dnum_1 [simp]: "dnum 1 = Fin 1"
  by (simp add: dnum_def)

lemma bc_11_5: "binomialCoefficient_d 11 5 = Fin 462"
  by (simp add: binomialCoefficient_d_def binomialCoefficient_loop_d.simps)

lemma rd_7_5: "round_double (7 / 5) = Fin (6305039478318694 / 2 ^ 52)"
  using round_double_near[of "- 52" "7 / 5" 6305039478318694]
  by (simp add: overflow_threshold_def)

lemma rd_330: "round_double (330 * (6305039478318694 / 2 ^ 52)) = Fin (8127589952520191 / 2 ^ 44)"
  using round_double_near[of "- 44" "330 * (6305039478318694 / 2 ^ 52)" 8127589952520191]
  by (simp add: overflow_threshold_def)

lemma spec_11_5: "spec_multiplicative_recurrence_d 11 5 = Fin (8127589952520191 / 2 ^ 44)"
proof -
  have "spec_multiplicative_recurrence_d 11 5 = rd (Fin 330 * rd (Fin (7 / 5)))"
    by (simp add: spec_multiplicative_recurrence_d_def upto_rec1)
  also have "\<dots> = rd (Fin (330 * (6305039478318694 / 2 ^ 52)))"
    by (simp only: rd.simps rd_7_5 times_number.simps)
  also have "\<dots> = Fin (8127589952520191 / 2 ^ 44)"
    by (simp only: rd.simps rd_330)
  finally show ?thesis .
qed

lemma binomialCoefficient_loop_d_foldl:
  "binomialCoefficient_loop_d n k i result =
     foldl (\<lambda>result i. rd (rd (result * dnum (n - i)) / dnum (i + 1))) result [i..k - 1]"
proof (induction n k i result rule: binomialCoefficient_loop_d.induct)
  case (1 n k i result)
  show ?case
  proof (cases "i < k")
    case True
    then have le: "i \<le> k - 1" by simp
    show ?thesis
      using "1.IH"[OF True]
      by (subst binomialCoefficient_loop_d.simps) (simp add: True upto_rec1[OF le])
  next
    case False
    then show ?thesis by (subst binomialCoefficient_loop_d.simps) simp
  qed
qed

text \<open>
  C7, as the code has it: \<^verbatim>\<open>binomialCoefficient(n, k)\<close> returns 0 if \<^verbatim>\<open>k < 0\<close> or \<^verbatim>\<open>k > n\<close>;
  otherwise it returns 1 if \<^verbatim>\<open>k = 0\<close> or \<^verbatim>\<open>k = n\<close>, so that
  \<^verbatim>\<open>binomialCoefficient(n, 0) = binomialCoefficient(n, n) = 1\<close> for all \<^verbatim>\<open>n \<ge> 0\<close>; otherwise it is
  the result of iterating \<^verbatim>\<open>result = (result * (n - i)) / (i + 1)\<close>, the product rounded and
  then the quotient, for \<^verbatim>\<open>i\<close> from 0 to \<^verbatim>\<open>min(k, n-k) - 1\<close>, starting from 1.
\<close>

theorem binomialCoefficient_d_cases:
  "(k < 0 \<or> k > n \<longrightarrow> binomialCoefficient_d n k = Fin 0) \<and>
   (\<not> (k < 0 \<or> k > n) \<and> (k = 0 \<or> k = n) \<longrightarrow> binomialCoefficient_d n k = Fin 1) \<and>
   (0 \<le> n \<longrightarrow> binomialCoefficient_d n 0 = Fin 1 \<and> binomialCoefficient_d n n = Fin 1) \<and>
   (0 < k \<and> k < n \<longrightarrow>
      binomialCoefficient_d n k =
        foldl (\<lambda>result i. rd (rd (result * dnum (n - i)) / dnum (i + 1))) (Fin 1)
          [0..min k (n - k) - 1])"
  by (simp add: binomialCoefficient_d_def binomialCoefficient_loop_d_foldl)

theorem binomialCoefficient_d_cases_witness:
  "binomialCoefficient_d 5 7 = Fin 0 \<and> binomialCoefficient_d 5 (- 1) = Fin 0 \<and>
   binomialCoefficient_d 5 0 = Fin 1 \<and> binomialCoefficient_d 5 5 = Fin 1 \<and>
   binomialCoefficient_d 5 3 = Fin 10"
proof -
  have "binomialCoefficient_d 5 3 =
        foldl (\<lambda>result i. rd (rd (result * dnum (5 - i)) / dnum (i + 1))) (Fin 1)
          [0..min 3 (5 - 3) - 1]"
    using binomialCoefficient_d_cases[of 3 5] by simp
  also have "\<dots> = Fin 10"
    by (simp add: upto_rec1)
  finally show ?thesis
    using binomialCoefficient_d_cases[of 7 5] binomialCoefficient_d_cases[of "- 1" 5]
      binomialCoefficient_d_cases[of 0 5]
    by simp
qed

text \<open>
  C7 as stated fails in double precision: for \<^verbatim>\<open>n = 11\<close>, \<^verbatim>\<open>k = 5\<close> the code returns 462, and
  iterating \<^verbatim>\<open>result *= (n-i)/(i+1)\<close> gives \<^verbatim>\<open>330 * (7/5) = 461.99999999999994\<close>, the quotient
  \<^verbatim>\<open>7/5\<close> not being a double.
\<close>

theorem binomialCoefficient_recurrence_counterexample:
  "(0::int) < 5 \<and> (5::int) < 11 \<and>
   binomialCoefficient_d 11 5 = Fin 462 \<and>
   spec_multiplicative_recurrence_d 11 (min 5 (11 - 5)) = Fin (8127589952520191 / 2 ^ 44) \<and>
   binomialCoefficient_d 11 5 \<noteq> spec_multiplicative_recurrence_d 11 (min 5 (11 - 5))"
  by (simp add: bc_11_5 spec_11_5)

section \<open>Overflow of the coefficient and of the sum\<close>

lemma nonneg_number_simps [simp]:
  "nonneg_number PosInf" "nonneg_number (Fin a) = (0 \<le> a)"
  "\<not> nonneg_number NaN" "\<not> nonneg_number NegInf"
  by (auto simp: nonneg_number_def)

lemma nonneg_rd: "nonneg_number u \<Longrightarrow> nonneg_number (rd u)"
  using round_double_nonneg by (cases u) (auto simp: nonneg_number_def)

lemma nonneg_times: "nonneg_number u \<Longrightarrow> 0 < b \<Longrightarrow> nonneg_number (u * Fin b)"
  by (cases u) auto

lemma nonneg_divide: "nonneg_number u \<Longrightarrow> 0 < b \<Longrightarrow> nonneg_number (u / Fin b)"
  by (cases u) auto

lemma nonneg_plus: "nonneg_number u \<Longrightarrow> nonneg_number v \<Longrightarrow> nonneg_number (u + v)"
  by (cases u; cases v) auto

lemma nonneg_plus_PosInf: "nonneg_number u \<Longrightarrow> u + PosInf = PosInf" "nonneg_number u \<Longrightarrow> PosInf + u = PosInf"
  by (cases u; auto)+

lemma round_double_Fin_below:
  assumes "round_double x = Fin y"
  shows "\<bar>y\<bar> < overflow_threshold"
proof -
  have thr: "0 < overflow_threshold" by (simp add: overflow_threshold_def)
  consider "x = 0" | "0 < x" | "x < 0" by linarith
  then show ?thesis
  proof cases
    case 1
    then show ?thesis using assms thr by (simp add: round_double_def)
  next
    case 2
    then show ?thesis
      using assms round_magnitude_nonneg[of x]
      by (auto simp: round_double_pos split: if_splits)
  next
    case 3
    then have "0 < - x" by simp
    have "round_double (- x) = Fin (- y)"
      using assms by (simp add: round_double_neg)
    then show ?thesis
      using \<open>0 < - x\<close> round_magnitude_nonneg[of "- x"]
      by (auto simp: round_double_pos split: if_splits)
  qed
qed

lemma rel_down_bounds: "0 < rel_down" "rel_down \<le> 1"
  by (simp_all add: rel_down_def)

lemma round_double_lower:
  assumes "1 / 2 \<le> x"
  shows "round_double x = PosInf \<or> (\<exists>y. round_double x = Fin y \<and> x * rel_down \<le> y \<and> y < overflow_threshold)"
proof -
  have pos: "0 < x" using assms by linarith
  have "(2::real) powi (- 1022) \<le> 2 powi (- 1)" by (intro power_int_increasing) simp_all
  then have n: "2 powi (- 1022) \<le> x" using assms by simp
  have "x - x / 2 ^ 53 \<le> round_magnitude x"
    using round_magnitude_rel[OF n] by linarith
  then have "x * rel_down \<le> round_magnitude x"
    by (simp add: rel_down_def algebra_simps)
  then show ?thesis
    using pos by (auto simp: round_double_pos)
qed

lemma rel_down_power:
  assumes "m \<le> 2 ^ 52"
  shows "1 / 2 \<le> rel_down ^ m"
proof -
  have "1 + real m * (- (1 / 2 ^ 53)) \<le> (1 + (- (1 / 2 ^ 53))) ^ m"
    by (rule Bernoulli_inequality) simp
  then have B: "1 - real m / 2 ^ 53 \<le> rel_down ^ m"
    by (simp add: rel_down_def)
  have "real m \<le> 2 ^ 52"
    using assms by (metis of_nat_le_iff of_nat_numeral of_nat_power)
  then have "real m / 2 ^ 53 \<le> 2 ^ 52 / 2 ^ 53"
    by (rule divide_right_mono) simp
  then have "real m / 2 ^ 53 \<le> 1 / 2" by simp
  with B show ?thesis by linarith
qed

lemma dnum_small:
  assumes "\<bar>i\<bar> \<le> 2 ^ 20"
  shows "dnum i = Fin (real_of_int i)"
proof -
  have "\<bar>i\<bar> < 2 ^ 53" using assms by simp
  then show ?thesis
    by (simp add: dnum_def round_double_int)
qed

lemma coeff_step:
  assumes i: "0 \<le> i" "i < n" and n: "n \<le> 2 ^ 20" and inv: "coeff_inv n i r"
  shows "coeff_inv n (i + 1) (rd (rd (r * dnum (n - i)) / dnum (i + 1)))"
proof -
  have d1: "dnum (n - i) = Fin (real_of_int (n - i))"
    using i n by (intro dnum_small) simp
  have d2: "dnum (i + 1) = Fin (real_of_int (i + 1))"
    using i n by (intro dnum_small) simp
  have p1: "0 < real_of_int (n - i)" and p2: "0 < real_of_int (i + 1)"
    using i by simp_all
  show ?thesis
  proof (cases "r = PosInf")
    case True
    then show ?thesis
      using p1 p2 by (simp add: d1 d2 coeff_inv_def del: of_int_diff of_int_add)
  next
    case False
    then obtain a where a: "r = Fin a"
      "real (nat n choose nat i) * rel_down ^ (2 * nat i) \<le> a"
      using inv by (auto simp: coeff_inv_def)
    define c where "c = real (nat n choose nat i)"
    define c' where "c' = real (nat n choose nat (i + 1))"
    define m where "m = 2 * nat i"
    define \<beta> where "\<beta> = rel_down"
    have \<beta>: "0 < \<beta>" "\<beta> \<le> 1" using rel_down_bounds by (simp_all add: \<beta>_def)
    have c1: "1 \<le> c"
    proof -
      have "0 < nat n choose nat i" using i by (intro zero_less_binomial) simp
      then show ?thesis unfolding c_def by linarith
    qed
    have c1': "1 \<le> c'"
    proof -
      have "0 < nat n choose nat (i + 1)" using i by (intro zero_less_binomial) simp
      then show ?thesis unfolding c'_def by linarith
    qed
    have step: "c' * real_of_int (i + 1) = real_of_int (n - i) * c"
    proof -
      have lt: "nat i < nat n" using i by simp
      have "real (nat n choose Suc (nat i)) * real (Suc (nat i))
              = real (nat n - nat i) * real (nat n choose nat i)"
        by (rule choose_step[OF lt])
      moreover have "Suc (nat i) = nat (i + 1)" using i by simp
      moreover have "real (nat n - nat i) = real_of_int (n - i)" using i by simp
      moreover have "real (nat (i + 1)) = real_of_int (i + 1)" using i by simp
      ultimately show ?thesis by (simp add: c_def c'_def)
    qed
    have m1: "m + 2 \<le> 2 ^ 52"
    proof -
      have "nat i \<le> 2 ^ 20" using i n by simp
      then have "m + 2 \<le> 2 * 2 ^ 20 + 2" by (simp add: m_def)
      also have "\<dots> \<le> (2::nat) ^ 52" by simp
      finally show ?thesis .
    qed
    have m0: "m \<le> 2 ^ 52" and m1': "m + 1 \<le> 2 ^ 52" using m1 by linarith+
    have bm: "1 / 2 \<le> \<beta> ^ m" "1 / 2 \<le> \<beta> ^ (m + 1)" "1 / 2 \<le> \<beta> ^ (m + 2)"
      unfolding \<beta>_def
      using rel_down_power[OF m0] rel_down_power[OF m1'] rel_down_power[OF m1] by blast+
    have a_low: "c * \<beta> ^ m \<le> a"
      using a(2) by (simp add: c_def m_def \<beta>_def)
    define t where "t = a * real_of_int (n - i)"
    have t_low: "c * \<beta> ^ m * real_of_int (n - i) \<le> t"
      unfolding t_def using a_low p1 by (intro mult_right_mono) simp_all
    have "1 / 2 \<le> c * \<beta> ^ m * real_of_int (n - i)"
    proof -
      have "1 / 2 * 1 \<le> (c * \<beta> ^ m) * real_of_int (n - i)"
      proof (rule mult_mono)
        have "1 * (1 / 2) \<le> c * \<beta> ^ m"
          using c1 bm(1) by (intro mult_mono) simp_all
        then show "1 / 2 \<le> c * \<beta> ^ m" by simp
        show "1 \<le> real_of_int (n - i)" using i by simp
        show "0 \<le> c * \<beta> ^ m" using c1 \<beta> by simp
      qed simp
      then show ?thesis by simp
    qed
    then have t_half: "1 / 2 \<le> t" using t_low by linarith
    have rt: "r * dnum (n - i) = Fin t"
      by (simp add: a(1) d1 t_def del: of_int_diff)
    from round_double_lower[OF t_half] show ?thesis
    proof
      assume "round_double t = PosInf"
      then show ?thesis
        using p2 by (simp add: rt d2 coeff_inv_def del: of_int_add)
    next
      assume "\<exists>y. round_double t = Fin y \<and> t * rel_down \<le> y \<and> y < overflow_threshold"
      then obtain t' where t': "round_double t = Fin t'" "t * \<beta> \<le> t'"
        by (auto simp: \<beta>_def)
      define w where "w = t' / real_of_int (i + 1)"
      have "c' * \<beta> ^ (m + 1) * real_of_int (i + 1)
              = (c' * real_of_int (i + 1)) * (\<beta> ^ m * \<beta>)"
        by (simp del: of_int_add of_int_diff)
      also have "\<dots> = (real_of_int (n - i) * c) * (\<beta> ^ m * \<beta>)"
        by (simp only: step)
      also have "\<dots> = c * \<beta> ^ m * real_of_int (n - i) * \<beta>"
        by (simp del: of_int_add of_int_diff)
      also have "\<dots> \<le> t * \<beta>"
        using t_low \<beta> by (intro mult_right_mono) simp_all
      also have "\<dots> \<le> t'" by (rule t'(2))
      finally have w_low: "c' * \<beta> ^ (m + 1) \<le> w"
        unfolding w_def using p2 by (simp add: pos_le_divide_eq)
      have "1 * (1 / 2) \<le> c' * \<beta> ^ (m + 1)"
        using c1' bm(2) by (intro mult_mono) simp_all
      then have w_half: "1 / 2 \<le> w" using w_low by linarith
      have rw: "rd (r * dnum (n - i)) / dnum (i + 1) = Fin w"
        using p2 by (simp add: rt t'(1) d2 w_def del: of_int_add)
      from round_double_lower[OF w_half] show ?thesis
      proof
        assume "round_double w = PosInf"
        then show ?thesis by (simp add: rw coeff_inv_def)
      next
        assume "\<exists>y. round_double w = Fin y \<and> w * rel_down \<le> y \<and> y < overflow_threshold"
        then obtain w' where w': "round_double w = Fin w'" "w * \<beta> \<le> w'" "w' < overflow_threshold"
          by (auto simp: \<beta>_def)
        have "c' * \<beta> ^ (m + 2) = c' * \<beta> ^ (m + 1) * \<beta>" by simp
        also have "\<dots> \<le> w * \<beta>"
          using w_low \<beta> by (intro mult_right_mono) simp_all
        also have "\<dots> \<le> w'" by (rule w'(2))
        finally have "c' * \<beta> ^ (m + 2) \<le> w'" .
        moreover have "2 * nat (i + 1) = m + 2" using i by (simp add: m_def)
        ultimately show ?thesis
          using w'(1,3) by (simp add: rw coeff_inv_def c'_def \<beta>_def)
      qed
    qed
  qed
qed

lemma coeff_loop:
  "0 \<le> i \<Longrightarrow> i \<le> k \<Longrightarrow> k \<le> n \<Longrightarrow> n \<le> 2 ^ 20 \<Longrightarrow> coeff_inv n i r \<Longrightarrow>
   coeff_inv n k (binomialCoefficient_loop_d n k i r)"
proof (induction n k i r rule: binomialCoefficient_loop_d.induct)
  case (1 n k i r)
  show ?case
  proof (cases "i < k")
    case True
    have inv': "coeff_inv n (i + 1) (rd (rd (r * dnum (n - i)) / dnum (i + 1)))"
      using "1.prems" True by (intro coeff_step) simp_all
    have "coeff_inv n k (binomialCoefficient_loop_d n k (i + 1)
            (rd (rd (r * dnum (n - i)) / dnum (i + 1))))"
      using "1.prems" True inv' by (intro "1.IH") simp_all
    then show ?thesis
      using True by (subst binomialCoefficient_loop_d.simps) simp
  next
    case False
    then have "i = k" using "1.prems" by simp
    then show ?thesis
      using "1.prems" by (subst binomialCoefficient_loop_d.simps) simp
  qed
qed

lemma coeff_inv_start: "coeff_inv n 0 (Fin 1)"
  by (simp add: coeff_inv_def overflow_threshold_def)

lemma coeff_inv_nonneg:
  assumes "coeff_inv n i r"
  shows "nonneg_number r"
proof (cases "r = PosInf")
  case True
  then show ?thesis by simp
next
  case False
  then obtain a where a: "r = Fin a" "real (nat n choose nat i) * rel_down ^ (2 * nat i) \<le> a"
    using assms by (auto simp: coeff_inv_def)
  have "0 \<le> real (nat n choose nat i) * rel_down ^ (2 * nat i)"
    using rel_down_bounds by simp
  then have "0 \<le> a" using a(2) by linarith
  then show ?thesis by (simp add: a(1))
qed

lemma binomialCoefficient_d_inv:
  assumes "0 \<le> k" "k \<le> n" "n \<le> 2 ^ 20"
  shows "coeff_inv n (min k (n - k)) (binomialCoefficient_d n k)"
proof (cases "k = 0 \<or> k = n")
  case True
  then have "min k (n - k) = 0" using assms by auto
  then show ?thesis
    using True assms by (auto simp: binomialCoefficient_d_def coeff_inv_start)
next
  case False
  have "coeff_inv n (min k (n - k)) (binomialCoefficient_loop_d n (min k (n - k)) 0 (Fin 1))"
    using assms False by (intro coeff_loop coeff_inv_start) auto
  then show ?thesis
    using False assms by (simp add: binomialCoefficient_d_def)
qed

lemma central_overflow: "overflow_threshold \<le> real (1040 choose 520) * rel_down ^ 1040"
proof -
  have "4 ^ 520 / (2 * real 520) \<le> real ((2 * 520) choose 520)"
    by (rule central_binomial_lower_bound) simp
  then have c: "4 ^ 520 / 1040 \<le> real (1040 choose 520)" by simp
  have b: "1 / 2 \<le> rel_down ^ 1040"
    by (rule rel_down_power) simp
  have "(4 ^ 520 / 1040) * (1 / 2) \<le> real (1040 choose 520) * rel_down ^ 1040"
    using c b by (intro mult_mono) simp_all
  moreover have "overflow_threshold \<le> (4 ^ 520 / 1040) * (1 / 2)"
    by (simp add: overflow_threshold_def)
  ultimately show ?thesis by linarith
qed

lemma binomialCoefficient_d_overflow: "binomialCoefficient_d 1040 520 = PosInf"
proof -
  have "coeff_inv 1040 (min 520 (1040 - 520)) (binomialCoefficient_d 1040 520)"
    by (rule binomialCoefficient_d_inv) simp_all
  then have "coeff_inv 1040 520 (binomialCoefficient_d 1040 520)" by simp
  then show ?thesis
    using central_overflow by (auto simp: coeff_inv_def)
qed

lemma half_power_powi: "(1 / 2) ^ m = (2::real) powi (- int m)"
  by (simp add: power_int_minus power_one_over inverse_eq_divide)

lemma round_double_half_power:
  assumes "m \<le> 1074"
  shows "round_double ((1 / 2) ^ m) = Fin ((1 / 2) ^ m)"
proof -
  have "(2::real) powi (- int m) \<le> 2 powi 0"
    by (intro power_int_increasing) simp_all
  then have "real_of_int 1 * 2 powi (- int m) < overflow_threshold"
    by (simp add: overflow_threshold_def)
  then have "round_double (real_of_int 1 * 2 powi (- int m)) = Fin (real_of_int 1 * 2 powi (- int m))"
    using assms by (intro round_double_exact) simp_all
  then show ?thesis by (simp add: half_power_powi)
qed

lemma Math_pow_d_half:
  assumes "0 \<le> e" "e \<le> 1074"
  shows "Math_pow_d (Fin (1 / 2)) e = Fin ((1 / 2) ^ nat e)"
proof -
  have "Math_pow (Fin (1 / 2)) e = Fin ((1 / 2) ^ nat e)"
    using assms by (simp add: Math_pow_def)
  then show ?thesis
    using assms round_double_half_power[of "nat e"] by (simp add: Math_pow_d_def)
qed

lemma round_double_half [simp]: "round_double (1 / 2) = Fin (1 / 2)"
  using round_double_half_power[of 1] by simp

lemma rd_half: "rd (Fin 1 - Fin (1 / 2)) = Fin (1 / 2)"
  by simp

lemma binomialPMF_d_half:
  assumes "0 \<le> k" "k \<le> n" "n \<le> 1074"
  shows "binomialPMF_d n k (Fin (1 / 2)) =
           rd (rd (binomialCoefficient_d n k * Fin ((1 / 2) ^ nat k)) * Fin ((1 / 2) ^ nat (n - k)))"
  using assms by (simp add: binomialPMF_d_def rd_half Math_pow_d_half)

lemma binomialPMF_d_half_nonneg:
  assumes "0 \<le> k" "k \<le> n" "n \<le> 1074"
  shows "nonneg_number (binomialPMF_d n k (Fin (1 / 2)))"
proof -
  have "n \<le> 2 ^ 20" using assms by simp
  then have "nonneg_number (binomialCoefficient_d n k)"
    using assms by (intro coeff_inv_nonneg[OF binomialCoefficient_d_inv]) simp_all
  then show ?thesis
    unfolding binomialPMF_d_half[OF assms]
    by (intro nonneg_rd nonneg_times) simp_all
qed

lemma binomialPMF_d_overflow: "binomialPMF_d 1040 520 (Fin (1 / 2)) = PosInf"
  by (simp add: binomialPMF_d_half binomialCoefficient_d_overflow)

lemma binomialSum_loop_d_foldl:
  "binomialSum_loop_d n p endK k s =
     foldl (\<lambda>sum_acc j. rd (sum_acc + binomialPMF_d n j p)) s [k..endK]"
proof (induction n p endK k s rule: binomialSum_loop_d.induct)
  case (1 n p endK k s)
  show ?case
  proof (cases "k \<le> endK")
    case True
    then show ?thesis
      using "1.IH"[OF True]
      by (subst binomialSum_loop_d.simps) (simp add: upto_rec1[OF True])
  next
    case False
    then show ?thesis by (subst binomialSum_loop_d.simps) simp
  qed
qed

lemma binomialSum_d_foldl:
  "binomialSum_d n p a b =
     foldl (\<lambda>sum_acc k. rd (sum_acc + binomialPMF_d n k p)) (Fin 0)
       [max 0 \<lfloor>a\<rfloor>..min n \<lfloor>b\<rfloor>]"
  by (simp add: binomialSum_d_def binomialSum_loop_d_foldl)

lemma sum_nonneg:
  "nonneg_number s \<Longrightarrow> (\<forall>k \<in> set ks. nonneg_number (f k)) \<Longrightarrow>
   nonneg_number (foldl (\<lambda>sum_acc k. rd (sum_acc + f k)) s ks)"
  by (induction ks arbitrary: s) (simp_all add: nonneg_rd nonneg_plus)

lemma sum_stays_infinite:
  "(\<forall>k \<in> set ks. nonneg_number (f k)) \<Longrightarrow>
   foldl (\<lambda>sum_acc k. rd (sum_acc + f k)) PosInf ks = PosInf"
  by (induction ks) (simp_all add: nonneg_plus_PosInf)

lemma sum_infinite_at:
  assumes m: "0 \<le> m" "m \<le> n" and inf: "f m = PosInf"
    and nn: "\<And>k. 0 \<le> k \<Longrightarrow> k \<le> n \<Longrightarrow> nonneg_number (f k)"
  shows "foldl (\<lambda>sum_acc k. rd (sum_acc + f k)) (Fin 0) [0..n] = PosInf"
proof -
  have split: "[0..n] = [0..m - 1] @ m # [m + 1..n]"
    using m by (rule upto_split3)
  have first: "nonneg_number (foldl (\<lambda>sum_acc k. rd (sum_acc + f k)) (Fin 0) [0..m - 1])"
    using m by (intro sum_nonneg) (auto intro: nn)
  have mid: "rd (foldl (\<lambda>sum_acc k. rd (sum_acc + f k)) (Fin 0) [0..m - 1] + f m) = PosInf"
    using first by (simp add: inf nonneg_plus_PosInf)
  have "foldl (\<lambda>sum_acc k. rd (sum_acc + f k)) (Fin 0) [0..n]
          = foldl (\<lambda>sum_acc k. rd (sum_acc + f k)) PosInf [m + 1..n]"
    unfolding split by (simp add: mid)
  also have "\<dots> = PosInf"
    using m by (intro sum_stays_infinite) (auto intro: nn)
  finally show ?thesis .
qed

lemma binomialSum_d_whole:
  "0 \<le> n \<Longrightarrow>
   binomialSum_d n p 0 (of_int n) =
     foldl (\<lambda>sum_acc k. rd (sum_acc + binomialPMF_d n k p)) (Fin 0) [0..n]"
  by (simp add: binomialSum_d_foldl)

lemma binomialSum_d_half_infinite:
  assumes "0 \<le> m" "m \<le> n" "n \<le> 1074" "binomialPMF_d n m (Fin (1 / 2)) = PosInf"
  shows "binomialSum_d n (Fin (1 / 2)) 0 (of_int n) = PosInf"
proof -
  have n0: "0 \<le> n" using assms by linarith
  show ?thesis
    unfolding binomialSum_d_whole[OF n0]
    using assms by (intro sum_infinite_at[of m]) (auto intro: binomialPMF_d_half_nonneg)
qed

text \<open>
  C6 as stated fails in double precision: for \<^verbatim>\<open>n = 1040\<close> and \<^verbatim>\<open>p = 0.5\<close> the coefficient of
  \<^verbatim>\<open>k = 520\<close> is at least \<^verbatim>\<open>4^520 / 1040\<close>, beyond the largest double, so the loop overflows
  to \<^verbatim>\<open>Infinity\<close>, the mass of \<^verbatim>\<open>k = 520\<close> is \<^verbatim>\<open>Infinity\<close>, and so is the sum.
\<close>

theorem binomialSum_total_counterexample:
  "(1::int) \<le> 1040 \<and> (0::real) < 1 / 2 \<and> (1 / 2 :: real) < 1 \<and>
   binomialSum_d 1040 (Fin (1 / 2)) 0 1040 = PosInf \<and>
   \<not> close_to (1 / 10 ^ 9) (binomialSum_d 1040 (Fin (1 / 2)) 0 1040) (Fin 1)"
proof -
  have "binomialSum_d 1040 (Fin (1 / 2)) 0 (of_int 1040) = PosInf"
    by (rule binomialSum_d_half_infinite[of 520]) (simp_all add: binomialPMF_d_overflow)
  then have "binomialSum_d 1040 (Fin (1 / 2)) 0 1040 = PosInf" by simp
  then show ?thesis by simp
qed

section \<open>Rounding error of the sum\<close>

text \<open>
  One rounding changes a number by at most the unit roundoff relative to it, or by half the
  subnormal spacing; the errors of the coefficient loop, of the two powers, of the two
  products and of the running sum are added up from this.
\<close>

lemma tiny_powi: "tiny = 2 powi (- 1075)"
proof -
  have "(2::real) powi (- int 1075) = 1 / 2 ^ 1075"
    by (simp only: power_int_minus power_int_of_nat) (simp add: field_simps)
  then show ?thesis by (simp only: tiny_def) simp
qed

lemma binade_subnormal:
  assumes "0 < x" "x < 2 powi (- 1022)"
  shows "binade x = - 1022"
proof -
  have "2 powi \<lfloor>log 2 x\<rfloor> < (2::real) powi (- 1022)"
    using expo_bounds(1)[OF assms(1)] assms(2) by linarith
  then have "\<lfloor>log 2 x\<rfloor> < - 1022" by (rule power_int_less_cancel)
  then show ?thesis by (simp add: binade_def)
qed

lemma round_magnitude_abs:
  assumes "0 < x"
  shows "\<bar>round_magnitude x - x\<bar> \<le> unit_roundoff * x + tiny"
proof (cases "2 powi (- 1022) \<le> x")
  case True
  from round_magnitude_rel[OF True] have "\<bar>round_magnitude x - x\<bar> \<le> unit_roundoff * x"
    by (simp add: unit_roundoff_def)
  moreover have "0 \<le> tiny" by (simp add: tiny_def)
  ultimately show ?thesis by linarith
next
  case False
  then have "binade x = - 1022" using assms by (intro binade_subnormal) simp_all
  then have "quantum x = 2 powi (- 1074)" by (simp add: quantum_def)
  moreover have "(2::real) powi (- 1074) = 2 powi (- 1075) * 2 powi 1"
    by (subst power_int_add[symmetric]) simp_all
  ultimately have "quantum x / 2 = tiny" by (simp add: tiny_powi)
  then have "\<bar>round_magnitude x - x\<bar> \<le> tiny"
    using round_magnitude_err[of x] by simp
  moreover have "0 \<le> unit_roundoff * x" using assms by (simp add: unit_roundoff_def)
  ultimately show ?thesis by linarith
qed

lemma unit_roundoff_bounds: "0 < unit_roundoff" "unit_roundoff \<le> 1 / 4"
  by (simp_all add: unit_roundoff_def)

lemma tiny_bounds: "0 < tiny" "tiny \<le> 1"
  by (simp_all add: tiny_def)

lemma overflow_threshold_large: "64 \<le> overflow_threshold"
  by (simp add: overflow_threshold_def)

lemma round_double_err:
  assumes "0 \<le> x" "x \<le> overflow_threshold / 4"
  shows "\<exists>y. round_double x = Fin y \<and> 0 \<le> y \<and> \<bar>y - x\<bar> \<le> unit_roundoff * x + tiny"
proof (cases "x = 0")
  case True
  then show ?thesis using tiny_bounds by simp
next
  case False
  then have pos: "0 < x" using assms by simp
  have e: "\<bar>round_magnitude x - x\<bar> \<le> unit_roundoff * x + tiny"
    by (rule round_magnitude_abs[OF pos])
  have "unit_roundoff * x \<le> 1 / 4 * x"
    using unit_roundoff_bounds pos by (intro mult_right_mono) simp_all
  then have "round_magnitude x \<le> 2 * x + 1"
    using e tiny_bounds pos by linarith
  then have "round_magnitude x < overflow_threshold"
    using assms(2) overflow_threshold_large by linarith
  then have "round_double x = Fin (round_magnitude x)"
    using pos by (simp add: round_double_pos)
  then show ?thesis
    using e round_magnitude_nonneg[OF assms(1)] by simp
qed

lemma round_double_rel:
  assumes "2 powi (- 1022) \<le> x" "x \<le> overflow_threshold / 4"
  shows "\<exists>y. round_double x = Fin y \<and> 0 \<le> y \<and> \<bar>y - x\<bar> \<le> unit_roundoff * x"
proof -
  have pos: "0 < x"
    using assms(1) zero_less_power_int[of "2::real" "- 1022"] by linarith
  have e: "\<bar>round_magnitude x - x\<bar> \<le> unit_roundoff * x"
    using round_magnitude_rel[OF assms(1)] by (simp add: unit_roundoff_def)
  have "unit_roundoff * x \<le> 1 / 4 * x"
    using unit_roundoff_bounds pos by (intro mult_right_mono) simp_all
  then have "round_magnitude x \<le> 2 * x"
    using e pos by linarith
  then have "round_magnitude x < overflow_threshold"
    using assms(2) overflow_threshold_large by linarith
  then have "round_double x = Fin (round_magnitude x)"
    using pos by (simp add: round_double_pos)
  then show ?thesis
    using e round_magnitude_nonneg[of x] pos by simp
qed

lemma approx_weaken:
  assumes "approx X e \<alpha> r" "0 \<le> X" "e \<le> e'" "\<alpha> \<le> \<alpha>'"
  shows "approx X e' \<alpha>' r"
proof -
  obtain a where a: "r = Fin a" "0 \<le> a" "\<bar>a - X\<bar> \<le> e * X + \<alpha>"
    using assms(1) by (auto simp: approx_def)
  have "e * X \<le> e' * X" using assms(2,3) by (intro mult_right_mono)
  then have "\<bar>a - X\<bar> \<le> e' * X + \<alpha>'" using a(3) assms(4) by linarith
  then show ?thesis using a by (auto simp: approx_def)
qed

lemma approx_rd:
  assumes ap: "approx X e \<alpha> r" and X: "0 \<le> X" "X \<le> overflow_threshold / 16"
    and e: "0 \<le> e" "e \<le> 1" and al: "0 \<le> \<alpha>" "\<alpha> \<le> 1"
  shows "approx X (e + 2 * unit_roundoff) (2 * \<alpha> + tiny) (rd r)"
proof -
  obtain a where a: "r = Fin a" "0 \<le> a" "\<bar>a - X\<bar> \<le> e * X + \<alpha>"
    using ap by (auto simp: approx_def)
  have eX: "e * X \<le> 1 * X" using X e by (intro mult_right_mono)
  then have a_up: "a \<le> 2 * X + \<alpha>" using a(3) by linarith
  then have "a \<le> overflow_threshold / 4"
    using X al overflow_threshold_large by linarith
  from round_double_err[OF a(2) this] obtain y where
    y: "round_double a = Fin y" "0 \<le> y" "\<bar>y - a\<bar> \<le> unit_roundoff * a + tiny"
    by blast
  have "unit_roundoff * a \<le> unit_roundoff * (2 * X + \<alpha>)"
    using a_up unit_roundoff_bounds by (intro mult_left_mono) simp_all
  also have "\<dots> = 2 * unit_roundoff * X + unit_roundoff * \<alpha>"
    by (simp add: algebra_simps)
  also have "\<dots> \<le> 2 * unit_roundoff * X + 1 * \<alpha>"
    using unit_roundoff_bounds al by (intro add_left_mono mult_right_mono) simp_all
  finally have "unit_roundoff * a \<le> 2 * unit_roundoff * X + \<alpha>" by simp
  then have "\<bar>y - X\<bar> \<le> (e + 2 * unit_roundoff) * X + (2 * \<alpha> + tiny)"
    using y(3) a(3) by (simp add: algebra_simps)
  then show ?thesis
    using y by (auto simp: approx_def a(1))
qed

lemma approx_rd_rel:
  assumes ap: "approx X e 0 r" and X: "1 \<le> X" "X \<le> overflow_threshold / 16"
    and e: "0 \<le> e" "e \<le> 1 / 2"
  shows "approx X (e + 2 * unit_roundoff) 0 (rd r)"
proof -
  obtain a where a: "r = Fin a" "0 \<le> a" "\<bar>a - X\<bar> \<le> e * X"
    using ap by (auto simp: approx_def)
  have eX: "e * X \<le> 1 / 2 * X" using X e by (intro mult_right_mono) simp_all
  then have a_up: "a \<le> 2 * X" and a_low: "1 / 2 \<le> a" using a(3) X by linarith+
  have "a \<le> overflow_threshold / 4" using X a_up by linarith
  moreover have "(2::real) powi (- 1022) \<le> 2 powi (- 1)"
    by (intro power_int_increasing) simp_all
  then have "2 powi (- 1022) \<le> a" using a_low by simp
  ultimately obtain y where
    y: "round_double a = Fin y" "0 \<le> y" "\<bar>y - a\<bar> \<le> unit_roundoff * a"
    using round_double_rel[of a] by blast
  have "unit_roundoff * a \<le> unit_roundoff * (2 * X)"
    using a_up unit_roundoff_bounds by (intro mult_left_mono) simp_all
  then have "\<bar>y - X\<bar> \<le> (e + 2 * unit_roundoff) * X + 0"
    using y(3) a(3) by (simp add: algebra_simps)
  then show ?thesis
    using y by (auto simp: approx_def a(1))
qed

lemma approx_times:
  assumes x: "approx X e1 \<alpha>1 r" and y: "approx Y e2 \<alpha>2 s"
    and X: "0 \<le> X" "X \<le> BX" and Y: "0 \<le> Y" "Y \<le> BY"
    and e: "0 \<le> e1" "e1 \<le> 1" "0 \<le> e2" "e2 \<le> 1" and al: "0 \<le> \<alpha>1" "0 \<le> \<alpha>2"
  shows "approx (X * Y) (2 * e1 + e2) (2 * BX * \<alpha>2 + 2 * \<alpha>1 * BY + \<alpha>1 * \<alpha>2) (r * s)"
proof -
  obtain a where a: "r = Fin a" "0 \<le> a" "\<bar>a - X\<bar> \<le> e1 * X + \<alpha>1"
    using x by (auto simp: approx_def)
  obtain b where b: "s = Fin b" "0 \<le> b" "\<bar>b - Y\<bar> \<le> e2 * Y + \<alpha>2"
    using y by (auto simp: approx_def)
  have "e2 * Y \<le> 1 * Y" using Y e by (intro mult_right_mono)
  then have b_up: "b \<le> 2 * Y + \<alpha>2" using b(3) by linarith
  have d1: "0 \<le> e1 * X + \<alpha>1" using X e al by simp
  have "a * b - X * Y = (a - X) * b + X * (b - Y)" by (simp add: algebra_simps)
  then have "\<bar>a * b - X * Y\<bar> \<le> \<bar>(a - X) * b\<bar> + \<bar>X * (b - Y)\<bar>" by simp
  also have "\<dots> = \<bar>a - X\<bar> * b + X * \<bar>b - Y\<bar>"
    using b(2) X by (simp add: abs_mult)
  also have "\<dots> \<le> (e1 * X + \<alpha>1) * (2 * Y + \<alpha>2) + X * (e2 * Y + \<alpha>2)"
    using a(3) b(3) b_up b(2) X d1 by (intro add_mono mult_mono) simp_all
  also have "\<dots> = (2 * e1 + e2) * (X * Y) + ((e1 + 1) * X * \<alpha>2 + 2 * \<alpha>1 * Y + \<alpha>1 * \<alpha>2)"
    by (simp add: algebra_simps)
  also have "\<dots> \<le> (2 * e1 + e2) * (X * Y) + (2 * BX * \<alpha>2 + 2 * \<alpha>1 * BY + \<alpha>1 * \<alpha>2)"
  proof -
    have "(e1 + 1) * X \<le> 2 * BX"
      using e X by (intro mult_mono) simp_all
    then have "(e1 + 1) * X * \<alpha>2 \<le> 2 * BX * \<alpha>2"
      using al by (intro mult_right_mono) simp_all
    moreover have "2 * \<alpha>1 * Y \<le> 2 * \<alpha>1 * BY"
      using al Y by (intro mult_left_mono) simp_all
    ultimately show ?thesis by linarith
  qed
  finally have "\<bar>a * b - X * Y\<bar>
      \<le> (2 * e1 + e2) * (X * Y) + (2 * BX * \<alpha>2 + 2 * \<alpha>1 * BY + \<alpha>1 * \<alpha>2)" .
  then show ?thesis
    using a b by (auto simp: approx_def)
qed

lemma approx_scale:
  assumes "approx X e 0 r" "0 < d"
  shows "approx (X * d) e 0 (r * Fin d)" "approx (X / d) e 0 (r / Fin d)"
proof -
  obtain a where a: "r = Fin a" "0 \<le> a" "\<bar>a - X\<bar> \<le> e * X"
    using assms(1) by (auto simp: approx_def)
  have "\<bar>a * d - X * d\<bar> = \<bar>a - X\<bar> * d"
    using assms(2) by (simp add: abs_mult left_diff_distrib[symmetric])
  also have "\<dots> \<le> e * X * d" using a(3) assms(2) by (intro mult_right_mono) simp_all
  finally show "approx (X * d) e 0 (r * Fin d)"
    using a assms(2) by (auto simp: approx_def algebra_simps)
  have "\<bar>a / d - X / d\<bar> = \<bar>a - X\<bar> / d"
    using assms(2) by (simp add: diff_divide_distrib[symmetric])
  also have "\<dots> \<le> e * X / d" using a(3) assms(2) by (intro divide_right_mono) simp_all
  finally show "approx (X / d) e 0 (r / Fin d)"
    using a assms(2) by (auto simp: approx_def)
qed

lemma choose_bound:
  assumes "0 \<le> n" "n \<le> 1000"
  shows "real (nat n choose j) \<le> 2 ^ 1000"
proof -
  have "nat n choose j \<le> 2 ^ nat n" by (rule binomial_le_pow2)
  then have "real (nat n choose j) \<le> real (2 ^ nat n)" by (rule iffD2[OF of_nat_le_iff])
  also have "\<dots> = 2 ^ nat n" by simp
  also have "\<dots> \<le> (2::real) ^ 1000"
    using assms by (intro power_increasing) simp_all
  finally show ?thesis .
qed

lemma big_bound: "(2::real) ^ 1000 * 1000 \<le> overflow_threshold / 16"
  "(2::real) ^ 1000 \<le> overflow_threshold / 16"
  by (simp_all add: overflow_threshold_def)

lemma coeff_approx_step:
  assumes i: "0 \<le> i" "i < n" and n: "n \<le> 1000"
    and inv: "approx (real (nat n choose nat i)) (4 * unit_roundoff * real_of_int i) 0 r"
  shows "approx (real (nat n choose nat (i + 1))) (4 * unit_roundoff * real_of_int (i + 1)) 0
           (rd (rd (r * dnum (n - i)) / dnum (i + 1)))"
proof -
  have d1: "dnum (n - i) = Fin (real_of_int (n - i))"
    using i n by (intro dnum_small) simp
  have d2: "dnum (i + 1) = Fin (real_of_int (i + 1))"
    using i n by (intro dnum_small) simp
  have p1: "0 < real_of_int (n - i)" and p2: "0 < real_of_int (i + 1)"
    using i by simp_all
  define c where "c = real (nat n choose nat i)"
  define c' where "c' = real (nat n choose nat (i + 1))"
  define e where "e = 4 * unit_roundoff * real_of_int i"
  define d where "d = real_of_int (n - i)"
  define d' where "d' = real_of_int (i + 1)"
  have d: "1 \<le> d" "d \<le> 1000" "0 < d" using i n by (simp_all add: d_def)
  have d': "0 < d'" using i by (simp add: d'_def)
  have n0: "0 \<le> n" using i by linarith
  have c1: "1 \<le> c"
  proof -
    have "0 < nat n choose nat i" using i by (intro zero_less_binomial) simp
    then show ?thesis unfolding c_def by linarith
  qed
  have c1': "1 \<le> c'"
  proof -
    have "0 < nat n choose nat (i + 1)" using i by (intro zero_less_binomial) simp
    then show ?thesis unfolding c'_def by linarith
  qed
  have cb: "c \<le> 2 ^ 1000" "c' \<le> 2 ^ 1000"
    unfolding c_def c'_def using n0 n by (intro choose_bound; simp)+
  have step: "c' * d' = d * c"
  proof -
    have lt: "nat i < nat n" using i by simp
    have "real (nat n choose Suc (nat i)) * real (Suc (nat i))
            = real (nat n - nat i) * real (nat n choose nat i)"
      by (rule choose_step[OF lt])
    moreover have "Suc (nat i) = nat (i + 1)" using i by simp
    moreover have "real (nat n - nat i) = real_of_int (n - i)" using i by simp
    moreover have "real (nat (i + 1)) = real_of_int (i + 1)" using i by simp
    ultimately show ?thesis by (simp add: c_def c'_def d_def d'_def)
  qed
  have e0: "0 \<le> e" using i unit_roundoff_bounds by (simp add: e_def)
  have "real_of_int i \<le> 1000" using i n by simp
  then have "e \<le> 4 * unit_roundoff * 1000"
    unfolding e_def using unit_roundoff_bounds by (intro mult_left_mono) simp_all
  then have e1: "e \<le> 1 / 4" and e2: "e + 2 * unit_roundoff \<le> 1 / 2"
    by (simp_all add: unit_roundoff_def)
  have inv': "approx c e 0 r" using inv by (simp add: c_def e_def)
  have s1: "approx (c * d) e 0 (r * Fin d)"
    using inv' d(3) by (rule approx_scale(1))
  have X1: "1 \<le> c * d"
    using c1 d(1) by (metis mult_mono mult_1 zero_le_one order_trans)
  have "c * d \<le> 2 ^ 1000 * 1000"
    using cb(1) d c1 by (intro mult_mono) simp_all
  then have X1b: "c * d \<le> overflow_threshold / 16" using big_bound(1) by linarith
  have s2: "approx (c * d) (e + 2 * unit_roundoff) 0 (rd (r * Fin d))"
    using s1 X1 X1b e0 e1 by (intro approx_rd_rel) simp_all
  have s3: "approx (c * d / d') (e + 2 * unit_roundoff) 0 (rd (r * Fin d) / Fin d')"
    using s2 d' by (rule approx_scale(2))
  have q: "c * d / d' = c'"
    using step d' by (simp add: field_simps)
  have X2b: "c' \<le> overflow_threshold / 16"
    using cb(2) big_bound(2) by linarith
  have s4: "approx c' (e + 2 * unit_roundoff + 2 * unit_roundoff) 0
              (rd (rd (r * Fin d) / Fin d'))"
    using s3 c1' X2b e0 e2 unit_roundoff_bounds unfolding q by (intro approx_rd_rel) simp_all
  have "e + 2 * unit_roundoff + 2 * unit_roundoff = 4 * unit_roundoff * real_of_int (i + 1)"
    by (simp add: e_def algebra_simps)
  then show ?thesis
    using s4 by (simp only: d1 d2 c'_def d_def d'_def)
qed

lemma coeff_approx_loop:
  "0 \<le> i \<Longrightarrow> i \<le> k \<Longrightarrow> k \<le> n \<Longrightarrow> n \<le> 1000 \<Longrightarrow>
   approx (real (nat n choose nat i)) (4 * unit_roundoff * real_of_int i) 0 r \<Longrightarrow>
   approx (real (nat n choose nat k)) (4 * unit_roundoff * real_of_int k) 0
     (binomialCoefficient_loop_d n k i r)"
proof (induction n k i r rule: binomialCoefficient_loop_d.induct)
  case (1 n k i r)
  show ?case
  proof (cases "i < k")
    case True
    have inv': "approx (real (nat n choose nat (i + 1))) (4 * unit_roundoff * real_of_int (i + 1)) 0
                  (rd (rd (r * dnum (n - i)) / dnum (i + 1)))"
      using "1.prems" True by (intro coeff_approx_step) simp_all
    have "approx (real (nat n choose nat k)) (4 * unit_roundoff * real_of_int k) 0
            (binomialCoefficient_loop_d n k (i + 1) (rd (rd (r * dnum (n - i)) / dnum (i + 1))))"
      using "1.prems" True inv' by (intro "1.IH") simp_all
    then show ?thesis
      using True by (subst binomialCoefficient_loop_d.simps) simp
  next
    case False
    then have "i = k" using "1.prems" by simp
    then show ?thesis
      using "1.prems" by (subst binomialCoefficient_loop_d.simps) simp
  qed
qed

lemma binomialCoefficient_d_approx:
  assumes "0 \<le> k" "k \<le> n" "n \<le> 1000"
  shows "approx (real (nat n choose nat k)) (1 / 2 ^ 42) 0 (binomialCoefficient_d n k)"
proof (cases "k = 0 \<or> k = n")
  case True
  then have "real (nat n choose nat k) = 1" by auto
  then show ?thesis
    using True assms by (auto simp: binomialCoefficient_d_def approx_def)
next
  case False
  define k' where "k' = min k (n - k)"
  have k': "0 \<le> k'" "k' \<le> n" "2 * k' \<le> n" using assms by (auto simp: k'_def min_def)
  have sym: "nat n choose nat k' = nat n choose nat k"
  proof (cases "k \<le> n - k")
    case True
    then show ?thesis by (simp add: k'_def)
  next
    case False
    then have "k' = n - k" by (simp add: k'_def)
    moreover have "nat n choose (nat n - nat k) = nat n choose nat k"
      using assms by (intro binomial_symmetric[symmetric]) simp
    moreover have "nat (n - k) = nat n - nat k" using assms by (simp add: nat_diff_distrib)
    ultimately show ?thesis by simp
  qed
  have start: "approx (real (nat n choose nat 0)) (4 * unit_roundoff * real_of_int 0) 0 (Fin 1)"
    by (simp add: approx_def)
  have bc: "binomialCoefficient_d n k = binomialCoefficient_loop_d n k' 0 (Fin 1)"
    using False assms by (simp add: binomialCoefficient_d_def k'_def)
  have "approx (real (nat n choose nat k')) (4 * unit_roundoff * real_of_int k') 0
          (binomialCoefficient_loop_d n k' 0 (Fin 1))"
    using k' assms start by (intro coeff_approx_loop) simp_all
  then have a: "approx (real (nat n choose nat k)) (4 * unit_roundoff * real_of_int k') 0
          (binomialCoefficient_d n k)"
    by (simp only: bc sym)
  have "real_of_int k' \<le> 500" using k' assms by simp
  then have "4 * unit_roundoff * real_of_int k' \<le> 4 * unit_roundoff * 500"
    using unit_roundoff_bounds by (intro mult_left_mono) simp_all
  also have "\<dots> \<le> 1 / 2 ^ 42" by (simp add: unit_roundoff_def)
  finally have "4 * unit_roundoff * real_of_int k' \<le> 1 / 2 ^ 42" .
  then show ?thesis
    using a by (intro approx_weaken[OF a]) simp_all
qed

lemma one_plus_power:
  assumes "0 \<le> u" "2 * real m * u \<le> 1"
  shows "(1 + u) ^ m \<le> 1 + 2 * real m * u"
  using assms(2)
proof (induction m)
  case 0
  then show ?case by simp
next
  case (Suc m)
  have mu: "0 \<le> real m * u" using assms(1) by simp
  have "2 * real m * u \<le> 2 * real (Suc m) * u"
    using assms(1) by (intro mult_right_mono) simp_all
  then have small: "2 * real m * u \<le> 1" using Suc.prems by linarith
  then have IH: "(1 + u) ^ m \<le> 1 + 2 * real m * u" by (rule Suc.IH)
  have "(1 + u) ^ Suc m = (1 + u) * (1 + u) ^ m" by simp
  also have "\<dots> \<le> (1 + u) * (1 + 2 * real m * u)"
    using IH assms(1) by (intro mult_left_mono) simp_all
  also have "\<dots> = 1 + 2 * real m * u + u + (2 * real m * u) * u"
    by (simp add: algebra_simps)
  also have "\<dots> \<le> 1 + 2 * real m * u + u + 1 * u"
    using small assms(1) by (intro add_left_mono mult_right_mono) simp_all
  also have "\<dots> = 1 + 2 * real (Suc m) * u" by (simp add: algebra_simps)
  finally show ?case .
qed

lemma one_minus_power:
  assumes "0 \<le> u" "u \<le> 1"
  shows "1 - real m * u \<le> (1 - u) ^ m"
proof -
  have "1 + real m * (- u) \<le> (1 + (- u)) ^ m"
    using assms by (intro Bernoulli_inequality) simp
  then show ?thesis by simp
qed

lemma power_approx:
  assumes q: "0 \<le> q" "0 \<le> q'" "\<bar>q' - q\<bar> \<le> u * q" and u: "0 \<le> u" "u \<le> 1"
    and m: "2 * real m * u \<le> 1"
  shows "\<bar>q' ^ m - q ^ m\<bar> \<le> 2 * real m * u * q ^ m"
proof -
  have qm: "0 \<le> q ^ m" using q by simp
  have up: "q' \<le> q * (1 + u)" and low: "q * (1 - u) \<le> q'"
    using q(3) by (simp_all add: algebra_simps abs_le_iff)
  have "q' ^ m \<le> (q * (1 + u)) ^ m"
    using up q by (intro power_mono) simp_all
  also have "\<dots> = q ^ m * (1 + u) ^ m" by (simp add: power_mult_distrib)
  also have "\<dots> \<le> q ^ m * (1 + 2 * real m * u)"
    using one_plus_power[OF u(1) m] qm by (intro mult_left_mono) simp_all
  finally have A: "q' ^ m - q ^ m \<le> 2 * real m * u * q ^ m"
    by (simp add: algebra_simps)
  have "0 \<le> q * (1 - u)" using q u by simp
  have "q ^ m * (1 - real m * u) \<le> q ^ m * (1 - u) ^ m"
    using one_minus_power[OF u] qm by (intro mult_left_mono) simp_all
  also have "\<dots> = (q * (1 - u)) ^ m" by (simp add: power_mult_distrib)
  also have "\<dots> \<le> q' ^ m"
    using low \<open>0 \<le> q * (1 - u)\<close> by (intro power_mono) simp_all
  finally have "q ^ m - q' ^ m \<le> real m * u * q ^ m"
    by (simp add: algebra_simps)
  moreover have "real m * u * q ^ m \<le> 2 * real m * u * q ^ m"
    using qm u by simp
  ultimately show ?thesis using A by linarith
qed

lemma Math_pow_d_Fin: "0 \<le> e \<Longrightarrow> Math_pow_d (Fin a) e = round_double (a ^ nat e)"
  by (simp add: Math_pow_d_def Math_pow_Fin)

lemma pow_p_approx:
  assumes "0 \<le> p" "p \<le> 1" "0 \<le> k"
  shows "approx (p ^ nat k) unit_roundoff tiny (Math_pow_d (Fin p) k)"
proof -
  have x: "0 \<le> p ^ nat k" "p ^ nat k \<le> 1"
    using assms by (simp_all add: power_le_one)
  have "p ^ nat k \<le> overflow_threshold / 4"
    using x(2) overflow_threshold_large by linarith
  from round_double_err[OF x(1) this] show ?thesis
    using assms(3) by (simp add: approx_def Math_pow_d_Fin)
qed

lemma one_minus_approx:
  assumes "2 powi (- 1022) \<le> 1 - p" "0 \<le> p"
  shows "\<exists>q'. rd (Fin 1 - Fin p) = Fin q' \<and> 0 \<le> q' \<and> \<bar>q' - (1 - p)\<bar> \<le> unit_roundoff * (1 - p)"
proof -
  have "1 - p \<le> overflow_threshold / 4"
    using assms(2) overflow_threshold_large by linarith
  from round_double_rel[OF assms(1) this] show ?thesis by simp
qed

lemma pow_q_approx:
  assumes q: "0 \<le> q" "q \<le> 1" "0 \<le> q'" "\<bar>q' - q\<bar> \<le> unit_roundoff * q"
    and m: "0 \<le> m" "m \<le> 1000"
  shows "approx (q ^ nat m) (1 / 2 ^ 41) tiny (Math_pow_d (Fin q') m)"
proof -
  have "real (nat m) \<le> 1000" using m by simp
  then have "2 * real (nat m) * unit_roundoff \<le> 2 * 1000 * unit_roundoff"
    using unit_roundoff_bounds by (intro mult_right_mono mult_left_mono) simp_all
  also have "\<dots> \<le> 1 / 2 ^ 42" by (simp add: unit_roundoff_def)
  finally have small: "2 * real (nat m) * unit_roundoff \<le> 1 / 2 ^ 42" .
  then have small1: "2 * real (nat m) * unit_roundoff \<le> 1" by simp
  have u1: "0 \<le> unit_roundoff" "unit_roundoff \<le> 1" using unit_roundoff_bounds by simp_all
  have x: "0 \<le> q ^ nat m" "q ^ nat m \<le> 1" using q by (simp_all add: power_le_one)
  have "\<bar>q' ^ nat m - q ^ nat m\<bar> \<le> 2 * real (nat m) * unit_roundoff * q ^ nat m"
    by (rule power_approx[OF q(1,3,4) u1 small1])
  also have "\<dots> \<le> 1 / 2 ^ 42 * q ^ nat m"
    using small x(1) by (intro mult_right_mono)
  finally have "approx (q ^ nat m) (1 / 2 ^ 42) 0 (Fin (q' ^ nat m))"
    using q(3) by (simp add: approx_def)
  then have "approx (q ^ nat m) (1 / 2 ^ 42 + 2 * unit_roundoff) (2 * 0 + tiny) (rd (Fin (q' ^ nat m)))"
    using x overflow_threshold_large by (intro approx_rd) simp_all
  then have "approx (q ^ nat m) (1 / 2 ^ 41) tiny (rd (Fin (q' ^ nat m)))"
    using x(1) by (rule approx_weaken) (simp_all add: unit_roundoff_def)
  then show ?thesis
    using m(1) by (simp add: Math_pow_d_Fin)
qed

lemma binomialPMF_d_approx:
  assumes k: "0 \<le> k" "k \<le> n" and n: "n \<le> 1000"
    and p: "0 \<le> p" "2 powi (- 1022) \<le> 1 - p"
  shows "approx (binomial_mass n k p) (1 / 2 ^ 36) (1 / 2 ^ 60) (binomialPMF_d n k (Fin p))"
proof -
  define C where "C = real (nat n choose nat k)"
  define X where "X = p ^ nat k"
  define Y where "Y = (1 - p) ^ nat (n - k)"
  have n0: "0 \<le> n" using k by linarith
  have q: "0 \<le> 1 - p" "1 - p \<le> 1" "p \<le> 1"
    using p zero_less_power_int[of "2::real" "- 1022"] by linarith+
  have C: "0 \<le> C" "C \<le> 2 ^ 1000"
    unfolding C_def using choose_bound[OF n0 n] by simp_all
  have X: "0 \<le> X" "X \<le> 1" unfolding X_def using p q by (simp_all add: power_le_one)
  have Y: "0 \<le> Y" "Y \<le> 1" unfolding Y_def using q by (simp_all add: power_le_one)
  have CX: "0 \<le> C * X" "C * X \<le> 2 ^ 1000"
  proof -
    show "0 \<le> C * X" using C X by simp
    have "C * X \<le> 2 ^ 1000 * 1" using C X by (intro mult_mono) simp_all
    then show "C * X \<le> 2 ^ 1000" by simp
  qed
  have CXY: "0 \<le> C * X * Y" "C * X * Y \<le> 2 ^ 1000"
  proof -
    show "0 \<le> C * X * Y" using CX Y by simp
    have "C * X * Y \<le> 2 ^ 1000 * 1" using CX Y by (intro mult_mono) simp_all
    then show "C * X * Y \<le> 2 ^ 1000" by simp
  qed
  obtain q' where q': "rd (Fin 1 - Fin p) = Fin q'" "0 \<le> q'"
    "\<bar>q' - (1 - p)\<bar> \<le> unit_roundoff * (1 - p)"
    using one_minus_approx[OF p(2,1)] by blast
  have aC: "approx C (1 / 2 ^ 42) 0 (binomialCoefficient_d n k)"
    unfolding C_def by (rule binomialCoefficient_d_approx[OF k n])
  have aP: "approx X unit_roundoff tiny (Math_pow_d (Fin p) k)"
    unfolding X_def by (rule pow_p_approx[OF p(1) q(3) k(1)])
  have aQ: "approx Y (1 / 2 ^ 41) tiny (Math_pow_d (Fin q') (n - k))"
    unfolding Y_def using k n by (intro pow_q_approx[OF q(1,2) q'(2,3)]) simp_all
  have "approx (C * X) (2 * (1 / 2 ^ 42) + unit_roundoff)
          (2 * 2 ^ 1000 * tiny + 2 * 0 * 1 + 0 * tiny)
          (binomialCoefficient_d n k * Math_pow_d (Fin p) k)"
    using aC aP C X unit_roundoff_bounds tiny_bounds
    by (intro approx_times) simp_all
  then have "approx (C * X) (1 / 2 ^ 40) (2 ^ 1001 * tiny)
          (binomialCoefficient_d n k * Math_pow_d (Fin p) k)"
    using CX(1) by (rule approx_weaken) (simp_all add: unit_roundoff_def)
  then have "approx (C * X) (1 / 2 ^ 40 + 2 * unit_roundoff) (2 * (2 ^ 1001 * tiny) + tiny)
          (rd (binomialCoefficient_d n k * Math_pow_d (Fin p) k))"
    using CX big_bound(2) by (intro approx_rd) (simp_all add: tiny_def)
  then have t1: "approx (C * X) (1 / 2 ^ 39) (2 ^ 1003 * tiny)
          (rd (binomialCoefficient_d n k * Math_pow_d (Fin p) k))"
    using CX(1) by (rule approx_weaken) (simp_all add: unit_roundoff_def tiny_def)
  have "approx (C * X * Y) (2 * (1 / 2 ^ 39) + 1 / 2 ^ 41)
          (2 * 2 ^ 1000 * tiny + 2 * (2 ^ 1003 * tiny) * 1 + 2 ^ 1003 * tiny * tiny)
          (rd (binomialCoefficient_d n k * Math_pow_d (Fin p) k) * Math_pow_d (Fin q') (n - k))"
    using t1 aQ CX Y by (intro approx_times) (simp_all add: tiny_def)
  then have "approx (C * X * Y) (1 / 2 ^ 37) (2 ^ 1005 * tiny)
          (rd (binomialCoefficient_d n k * Math_pow_d (Fin p) k) * Math_pow_d (Fin q') (n - k))"
    using CXY(1) by (rule approx_weaken) (simp_all add: tiny_def)
  then have "approx (C * X * Y) (1 / 2 ^ 37 + 2 * unit_roundoff) (2 * (2 ^ 1005 * tiny) + tiny)
          (rd (rd (binomialCoefficient_d n k * Math_pow_d (Fin p) k) * Math_pow_d (Fin q') (n - k)))"
    using CXY big_bound(2) by (intro approx_rd) (simp_all add: tiny_def)
  then have "approx (C * X * Y) (1 / 2 ^ 36) (1 / 2 ^ 60)
          (rd (rd (binomialCoefficient_d n k * Math_pow_d (Fin p) k) * Math_pow_d (Fin q') (n - k)))"
    using CXY(1) by (rule approx_weaken) (simp_all add: unit_roundoff_def tiny_def)
  moreover have "binomial_mass n k p = C * X * Y"
    using k by (simp add: binomial_mass_def C_def X_def Y_def)
  moreover have "binomialPMF_d n k (Fin p)
      = rd (rd (binomialCoefficient_d n k * Math_pow_d (Fin p) k) * Math_pow_d (Fin q') (n - k))"
    using k by (simp only: binomialPMF_d_def q'(1)[symmetric]) simp
  ultimately show ?thesis by simp
qed

lemma sum_approx_foldl:
  fixes T :: "int \<Rightarrow> real"
  assumes E: "0 \<le> E" "E \<le> 1" and A: "0 \<le> A" "A \<le> 1"
    and \<delta>: "\<delta> = A + 8 * unit_roundoff + tiny"
  shows "0 \<le> s \<Longrightarrow> \<bar>s - \<sigma>\<bar> \<le> E * \<sigma> + d \<Longrightarrow> 0 \<le> \<sigma> \<Longrightarrow> 0 \<le> d \<Longrightarrow>
    \<sigma> + sum_list (map T ks) \<le> 1 \<Longrightarrow> d + real (length ks) * \<delta> \<le> 1 \<Longrightarrow>
    (\<forall>k \<in> set ks. 0 \<le> T k \<and> approx (T k) E A (f k)) \<Longrightarrow>
    \<exists>s'. foldl (\<lambda>sum_acc k. rd (sum_acc + f k)) (Fin s) ks = Fin s' \<and> 0 \<le> s' \<and>
       \<bar>s' - (\<sigma> + sum_list (map T ks))\<bar>
         \<le> E * (\<sigma> + sum_list (map T ks)) + (d + real (length ks) * \<delta>)"
proof (induction ks arbitrary: s \<sigma> d)
  case Nil
  then show ?case by simp
next
  case (Cons k ks)
  have \<delta>0: "0 \<le> \<delta>" using A unit_roundoff_bounds tiny_bounds by (simp add: \<delta>)
  have Tk: "0 \<le> T k" and ap: "approx (T k) E A (f k)" using Cons.prems(7) by simp_all
  have rest: "0 \<le> sum_list (map T ks)"
    using Cons.prems(7) by (intro sum_list_nonneg) auto
  have tot: "\<sigma> + T k + sum_list (map T ks) \<le> 1" using Cons.prems(5) by simp
  have Tk1: "T k \<le> 1" and \<sigma>1: "\<sigma> \<le> 1" using tot rest Tk Cons.prems(3) by linarith+
  have dl: "d + \<delta> + real (length ks) * \<delta> \<le> 1"
    using Cons.prems(6) by (simp add: algebra_simps)
  have "0 \<le> real (length ks) * \<delta>" using \<delta>0 by simp
  then have d1: "d \<le> 1" using dl \<delta>0 by linarith
  obtain b where b: "f k = Fin b" "0 \<le> b" "\<bar>b - T k\<bar> \<le> E * T k + A"
    using ap by (auto simp: approx_def)
  have "E * T k \<le> 1 * 1" using E Tk Tk1 by (intro mult_mono) simp_all
  then have b_up: "b \<le> 3" using b(3) Tk1 A by linarith
  have "E * \<sigma> \<le> 1 * 1" using E Cons.prems(3) \<sigma>1 by (intro mult_mono) simp_all
  then have s_up: "s \<le> 3" using Cons.prems(2) \<sigma>1 d1 by linarith
  define x where "x = s + b"
  have x: "0 \<le> x" "x \<le> 8" using Cons.prems(1) b(2) s_up b_up by (simp_all add: x_def)
  have "x \<le> overflow_threshold / 4" using x(2) overflow_threshold_large by linarith
  from round_double_err[OF x(1) this] obtain y where
    y: "round_double x = Fin y" "0 \<le> y" "\<bar>y - x\<bar> \<le> unit_roundoff * x + tiny"
    by blast
  have "unit_roundoff * x \<le> unit_roundoff * 8"
    using x(2) unit_roundoff_bounds by (intro mult_left_mono) simp_all
  then have yx: "\<bar>y - x\<bar> \<le> 8 * unit_roundoff + tiny" using y(3) by linarith
  have "\<bar>y - (\<sigma> + T k)\<bar> \<le> (E * \<sigma> + d) + (E * T k + A) + (8 * unit_roundoff + tiny)"
    using yx Cons.prems(2) b(3) by (simp add: x_def)
  then have inv: "\<bar>y - (\<sigma> + T k)\<bar> \<le> E * (\<sigma> + T k) + (d + \<delta>)"
    by (simp add: \<delta> algebra_simps)
  have step: "rd (Fin s + f k) = Fin y" using y(1) by (simp add: b(1) x_def)
  have "\<exists>s'. foldl (\<lambda>sum_acc k. rd (sum_acc + f k)) (Fin y) ks = Fin s' \<and> 0 \<le> s' \<and>
       \<bar>s' - ((\<sigma> + T k) + sum_list (map T ks))\<bar>
         \<le> E * ((\<sigma> + T k) + sum_list (map T ks)) + ((d + \<delta>) + real (length ks) * \<delta>)"
    using y(2) inv Cons.prems(3,4,7) Tk \<delta>0 tot dl by (intro Cons.IH) simp_all
  then show ?case
    by (simp add: step algebra_simps)
qed

lemma binomial_mass_nonneg: "0 \<le> p \<Longrightarrow> p \<le> 1 \<Longrightarrow> 0 \<le> binomial_mass n k p"
  by (simp add: binomial_mass_def)

lemma binomial_mass_sum_list:
  assumes "0 \<le> n"
  shows "sum_list (map (\<lambda>k. binomial_mass n k p) [0..n]) = 1"
proof -
  have "sum_list (map (\<lambda>k. binomial_mass n k p) [0..n])
          = (\<Sum>k \<in> set [0..n]. binomial_mass n k p)"
    by (rule sum_list_distinct_conv_sum_set) simp
  also have "\<dots> = (\<Sum>k \<in> {0..n}. binomial_mass n k p)" by simp
  also have "\<dots> = 1" by (rule binomial_mass_total[OF assms])
  finally show ?thesis .
qed

lemma binomialSum_d_close:
  assumes n: "0 \<le> n" "n \<le> 1000" and p: "0 \<le> p" "2 powi (- 1022) \<le> 1 - p"
  shows "\<exists>s. binomialSum_d n (Fin p) 0 (of_int n) = Fin s \<and> \<bar>s - 1\<bar> \<le> 1 / 10 ^ 9"
proof -
  define \<delta> :: real where "\<delta> = 1 / 2 ^ 60 + 8 * unit_roundoff + tiny"
  define T where "T = (\<lambda>k. binomial_mass n k p)"
  have p1: "p \<le> 1"
    using p zero_less_power_int[of "2::real" "- 1022"] by linarith
  have len: "real (length [0..n]) \<le> 1001" using n by simp
  have \<delta>0: "0 \<le> \<delta>" using unit_roundoff_bounds tiny_bounds by (simp add: \<delta>_def)
  have "real (length [0..n]) * \<delta> \<le> 1001 * \<delta>"
    using len \<delta>0 by (intro mult_right_mono)
  also have "\<dots> \<le> 1 / 2 ^ 36"
    by (simp add: \<delta>_def unit_roundoff_def tiny_def)
  finally have small: "real (length [0..n]) * \<delta> \<le> 1 / 2 ^ 36" .
  have tot: "sum_list (map T [0..n]) = 1"
    unfolding T_def by (rule binomial_mass_sum_list[OF n(1)])
  have terms: "\<forall>k \<in> set [0..n]. 0 \<le> T k \<and> approx (T k) (1 / 2 ^ 36) (1 / 2 ^ 60) (binomialPMF_d n k (Fin p))"
  proof (intro ballI conjI)
    fix k
    assume "k \<in> set [0..n]"
    then have k: "0 \<le> k" "k \<le> n" by simp_all
    show "0 \<le> T k"
      unfolding T_def by (rule binomial_mass_nonneg[OF p(1) p1])
    show "approx (T k) (1 / 2 ^ 36) (1 / 2 ^ 60) (binomialPMF_d n k (Fin p))"
      unfolding T_def by (rule binomialPMF_d_approx[OF k n(2) p])
  qed
  have "\<exists>s'. foldl (\<lambda>sum_acc k. rd (sum_acc + binomialPMF_d n k (Fin p))) (Fin 0) [0..n] = Fin s' \<and> 0 \<le> s' \<and>
       \<bar>s' - (0 + sum_list (map T [0..n]))\<bar>
         \<le> 1 / 2 ^ 36 * (0 + sum_list (map T [0..n])) + (0 + real (length [0..n]) * \<delta>)"
    using terms small tot
    by (intro sum_approx_foldl[where A = "1 / 2 ^ 60"]) (simp_all add: \<delta>_def)
  then obtain s where s: "foldl (\<lambda>sum_acc k. rd (sum_acc + binomialPMF_d n k (Fin p))) (Fin 0) [0..n] = Fin s"
    "\<bar>s - 1\<bar> \<le> 1 / 2 ^ 36 + real (length [0..n]) * \<delta>"
    unfolding tot by auto
  have "\<bar>s - 1\<bar> \<le> 1 / 2 ^ 36 + 1 / 2 ^ 36" using s(2) small by linarith
  also have "\<dots> \<le> 1 / 10 ^ 9" by simp
  finally have "\<bar>s - 1\<bar> \<le> 1 / 10 ^ 9" .
  then show ?thesis
    using s(1) by (simp add: binomialSum_d_whole[OF n(1)])
qed

lemma double_below_one:
  assumes "round_double p = Fin p" "0 < p" "p < 1"
  shows "2 powi (- 1022) \<le> 1 - p"
proof -
  have low: "(2::real) powi (- 1022) \<le> 2 powi (- 53)"
    by (intro power_int_increasing) simp_all
  have h: "(2::real) powi (- 53) \<le> 1 / 2"
  proof -
    have "(2::real) powi (- 53) \<le> 2 powi (- 1)" by (intro power_int_increasing) simp_all
    then show ?thesis by simp
  qed
  show ?thesis
  proof (cases "p < 1 / 2")
    case True
    then show ?thesis using low h by linarith
  next
    case False
    then have "(2::real) powi (- 1) \<le> p" by simp
    moreover have "p < 2 powi (- 1 + 1)" using assms(3) by simp
    ultimately have "binade p = - 1" by (rule binade_eq) simp
    then have qu: "quantum p = 2 powi (- 53)" by (simp add: quantum_def)
    define K where "K = round_half_even (p / quantum p)"
    have "p = round_magnitude p"
      using assms(1,2) by (simp add: round_double_pos split: if_splits)
    then have pK: "p = of_int K * 2 powi (- 53)"
      by (simp add: round_magnitude_def K_def qu)
    have two: "(2::real) powi (- 53) * 2 ^ 53 = 1"
    proof -
      have "(2::real) powi (- 53) * 2 powi 53 = 2 powi (- 53 + 53)"
        by (subst power_int_add) simp_all
      then show ?thesis by simp
    qed
    have "p * 2 ^ 53 = of_int K * 2 powi (- 53) * 2 ^ 53"
      using pK by (rule arg_cong[where f = "\<lambda>z. z * 2 ^ 53"])
    then have "p * 2 ^ 53 = of_int K * (2 powi (- 53) * 2 ^ 53)"
      by (simp only: mult.assoc)
    then have "p * 2 ^ 53 = of_int K" by (simp only: two mult_1_right)
    moreover have "p * 2 ^ 53 < 1 * 2 ^ 53"
      using assms(3) by (intro mult_strict_right_mono) simp_all
    ultimately have "real_of_int K < 2 ^ 53" by simp
    then have "real_of_int K < real_of_int (2 ^ 53)" by simp
    then have "K < 2 ^ 53" by (simp only: of_int_less_iff)
    then have "K + 1 \<le> 2 ^ 53" by simp
    then have "real_of_int (K + 1) \<le> real_of_int (2 ^ 53)" by (simp only: of_int_le_iff)
    then have "real_of_int K + 1 \<le> 2 ^ 53" by simp
    then have "(real_of_int K + 1) * 2 powi (- 53) \<le> 2 ^ 53 * 2 powi (- 53)"
      by (intro mult_right_mono) simp_all
    then have "p + 2 powi (- 53) \<le> 1"
      using two by (simp add: pK algebra_simps)
    then show ?thesis using low by linarith
  qed
qed

text \<open>
  C6, as the code has it in double precision: for every number of trials \<^verbatim>\<open>n\<close> from 1 to 1000
  and every double \<^verbatim>\<open>p\<close> strictly between 0 and 1, \<^verbatim>\<open>binomialSum(n, p, 0, n)\<close> is a finite
  number within \<^verbatim>\<open>1e-9\<close> of 1. The bound on \<^verbatim>\<open>n\<close> is needed: the coefficient overflows for
  larger \<^verbatim>\<open>n\<close>, as the sum for \<^verbatim>\<open>n = 1040\<close> shows.
\<close>

theorem binomialSum_d_total:
  assumes "1 \<le> n" "n \<le> 1000" "0 < p" "p < 1" "round_double p = Fin p"
  shows "close_to (1 / 10 ^ 9) (binomialSum_d n (Fin p) 0 (of_int n)) (Fin 1)"
proof -
  have q: "2 powi (- 1022) \<le> 1 - p" by (rule double_below_one[OF assms(5,3,4)])
  have "\<exists>s. binomialSum_d n (Fin p) 0 (of_int n) = Fin s \<and> \<bar>s - 1\<bar> \<le> 1 / 10 ^ 9"
    using assms q by (intro binomialSum_d_close) simp_all
  then show ?thesis by auto
qed

theorem binomialSum_d_total_witness:
  "(1::int) \<le> 200 \<and> (200::int) \<le> 1000 \<and> (0::real) < 1 / 2 \<and> (1 / 2 :: real) < 1 \<and>
   round_double (1 / 2) = Fin (1 / 2) \<and>
   close_to (1 / 10 ^ 9) (binomialSum_d 200 (Fin (1 / 2)) 0 200) (Fin 1)"
  using binomialSum_d_total[of 200 "1 / 2"] by simp

end
